theory Spec2Isabelle
  imports Complex_Main "HOL-Library.Word" "HOL-Library.Multiset" "HOL-Library.Log_Nat"
begin

unbundle bit_operations_syntax

section \<open>Data model of package consistent\<close>

text \<open>
  Byte slices and Go strings are byte sequences; an Isabelle \<open>char\<close> is one 8-bit byte, so
  both are modelled as \<open>string\<close>. \<open>uint64\<close> is \<open>64 word\<close>. \<open>PartitionID\<close> is a
  Go \<open>int\<close> (64 bits); the conversion \<open>PartitionID(partID)\<close> from \<open>uint64\<close> keeps the bits,
  so a partition id is a \<open>64 word\<close> as well.
\<close>

type_synonym bytes = string
type_synonym uint64 = "64 word"
type_synonym PartitionID = "64 word"
type_synonym Ball = bytes

record Bin =
  Name :: string
  PartitionIDs :: "PartitionID list"

definition NewBin :: "string \<Rightarrow> Bin" where
  "NewBin name = \<lparr>Name = name, PartitionIDs = []\<rparr>"

datatype error =
    ErrInsufficientBins
  | ErrBallNotFound
  | ErrBinNotFound
  | ErrBinAlreadyExist
  | ErrInsufficientPartitionCapacity

subsection \<open>float64\<close>

text \<open>
  A \<open>float64\<close> is an IEEE 754 binary64 value: a finite value (a real number that has 53
  significant bits and an exponent in range), an infinity or NaN. Every arithmetic operation
  computes the exact result and rounds it to the nearest binary64 value, ties to the even
  significand, as Go does; results of magnitude \<open>2 ^ 1024\<close> or more after rounding are
  infinite, and results below \<open>2 ^ (-1022)\<close> are rounded on the subnormal grid. The sign of
  zero is the one thing left out: the package never divides by a computed zero and never
  prints a float, so \<open>-0\<close> and \<open>+0\<close> behave alike in it.
\<close>

datatype float64 = Fin real | PInf | NInf | NaN

text \<open>Rounding a real to the nearest integer, ties to even.\<close>

definition rne :: "real \<Rightarrow> int" where
  "rne x = (let f = \<lfloor>x\<rfloor>; d = x - of_int f
            in if d < 1 / 2 then f else if 1 / 2 < d then f + 1
               else if even f then f else f + 1)"

definition pow2 :: "int \<Rightarrow> real" where
  "pow2 e = (if 0 \<le> e then 2 ^ nat e else 1 / 2 ^ nat (- e))"

text \<open>The exponent \<open>e\<close> of a positive real \<open>x\<close>: \<open>2 ^ e \<le> x < 2 ^ (e + 1)\<close>.\<close>

definition binade :: "real \<Rightarrow> int" where
  "binade x = (if 1 \<le> x then bitlen \<lfloor>x\<rfloor> - 1 else - bitlen (\<lceil>1 / x\<rceil> - 1))"

text \<open>
  Rounding a positive real to binary64: the spacing of the values around \<open>x\<close> is
  \<open>2 ^ (e - 52)\<close>, where \<open>e\<close> is the exponent of \<open>x\<close> and at least \<open>-1022\<close>.
\<close>

definition round_pos :: "real \<Rightarrow> float64" where
  "round_pos x =
     (let e = max (binade x) (- 1022);
          u = pow2 (e - 52);
          r = of_int (rne (x / u)) * u
      in if pow2 1024 \<le> r then PInf else Fin r)"

fun fneg :: "float64 \<Rightarrow> float64" where
  "fneg (Fin a) = Fin (- a)"
| "fneg PInf = NInf"
| "fneg NInf = PInf"
| "fneg NaN = NaN"

definition round64 :: "real \<Rightarrow> float64" where
  "round64 x =
     (if x = 0 then Fin 0 else if 0 < x then round_pos x else fneg (round_pos (- x)))"

text \<open>The conversions \<open>float64(n)\<close> of an unsigned integer or a length.\<close>

definition float64_of_nat :: "nat \<Rightarrow> float64" where
  "float64_of_nat n = round64 (real n)"

fun fsgn :: "float64 \<Rightarrow> int" where
  "fsgn (Fin a) = (if a > 0 then 1 else if a < 0 then -1 else 0)"
| "fsgn PInf = 1"
| "fsgn NInf = -1"
| "fsgn NaN = 0"

text \<open>The infinity of a sign, NaN for no sign.\<close>

definition inf_of_sign :: "int \<Rightarrow> float64" where
  "inf_of_sign s = (if s > 0 then PInf else if s < 0 then NInf else NaN)"

text \<open>\<open>x * y\<close>.\<close>

fun fmul :: "float64 \<Rightarrow> float64 \<Rightarrow> float64" where
  "fmul (Fin a) (Fin b) = round64 (a * b)"
| "fmul NaN y = NaN"
| "fmul x NaN = NaN"
| "fmul x y = inf_of_sign (fsgn x * fsgn y)"

text \<open>
  \<open>x / y\<close>: no panic on a zero divisor (the divisors of the package are lengths, so a zero
  divisor is \<open>+0\<close>).
\<close>

fun fdiv :: "float64 \<Rightarrow> float64 \<Rightarrow> float64" where
  "fdiv (Fin a) (Fin b) = (if b = 0 then inf_of_sign (fsgn (Fin a)) else round64 (a / b))"
| "fdiv NaN y = NaN"
| "fdiv x NaN = NaN"
| "fdiv (Fin a) y = Fin 0"
| "fdiv x (Fin b) = inf_of_sign (fsgn x * (if b < 0 then - 1 else 1))"
| "fdiv x y = NaN"

text \<open>\<open>x + y\<close>.\<close>

fun fadd :: "float64 \<Rightarrow> float64 \<Rightarrow> float64" where
  "fadd (Fin a) (Fin b) = round64 (a + b)"
| "fadd NaN y = NaN"
| "fadd x NaN = NaN"
| "fadd PInf NInf = NaN"
| "fadd NInf PInf = NaN"
| "fadd (Fin a) y = y"
| "fadd x y = x"

text \<open>\<open>math.Ceil\<close>: the ceiling of a binary64 value is a binary64 value.\<close>

fun fceil :: "float64 \<Rightarrow> float64" where
  "fceil (Fin a) = Fin (of_int \<lceil>a\<rceil>)"
| "fceil x = x"

text \<open>The comparison \<open>x <= y\<close> of two floats: false as soon as one side is NaN.\<close>

fun fle :: "float64 \<Rightarrow> float64 \<Rightarrow> bool" where
  "fle NaN y = False"
| "fle x NaN = False"
| "fle (Fin a) (Fin b) = (a \<le> b)"
| "fle NInf y = True"
| "fle x PInf = True"
| "fle x y = False"

subsection \<open>Config and Consistent\<close>

record Config =
  Hasher :: "bytes \<Rightarrow> uint64"
  Partition :: int
  ReplicationFactor :: int
  LoadBalancingParameter :: float64

text \<open>
  The Go maps are finite maps; a nil map reads as the empty map. The mutex \<open>mu\<close> is left
  out: every operation is modelled as one sequential call.
\<close>

record Consistent =
  hasher :: "bytes \<Rightarrow> uint64"
  partition :: uint64
  replicationFactor :: int
  loadBalancingParameter :: float64
  loads :: "string \<rightharpoonup> PartitionID list"
  bins :: "string \<rightharpoonup> Bin"
  balls :: "PartitionID \<rightharpoonup> Ball"
  partitions :: "PartitionID \<rightharpoonup> Bin"
  ring :: "uint64 \<rightharpoonup> Bin"
  sortedSet :: "uint64 list"

section \<open>Library functions used by the package\<close>

text \<open>\<open>fmt.Sprintf("%d", i)\<close> for a non-negative \<open>i\<close>: the decimal digits.\<close>

definition digit :: "nat \<Rightarrow> char" where
  "digit d = char_of (48 + d)"

fun decimal :: "nat \<Rightarrow> string" where
  "decimal n = (if n < 10 then [digit n] else decimal (n div 10) @ [digit (n mod 10)])"

declare decimal.simps [simp del]

text \<open>\<open>binary.LittleEndian.PutUint64(bs, v)\<close> on a slice of 8 bytes.\<close>

definition PutUint64 :: "uint64 \<Rightarrow> bytes" where
  "PutUint64 v = map (\<lambda>k. char_of (unat (drop_bit (8 * k) v))) [0..<8]"

text \<open>
  \<open>sort.Search(n, f)\<close>: the binary search of the standard library,
  \<^verbatim>\<open>i, j := 0, n; for i < j { h := (i+j)/2; if !f(h) { i = h + 1 } else { j = h } }; return i\<close>.
\<close>

function Search_loop :: "(nat \<Rightarrow> bool) \<Rightarrow> nat \<Rightarrow> nat \<Rightarrow> nat" where
  "Search_loop f i j =
     (if i < j then
        (let h = (i + j) div 2 in
         if \<not> f h then Search_loop f (h + 1) j else Search_loop f i h)
      else i)"
  by pat_completeness auto
termination
  by (relation "measure (\<lambda>(f, i, j). j - i)") auto

declare Search_loop.simps [simp del]

definition Search :: "nat \<Rightarrow> (nat \<Rightarrow> bool) \<Rightarrow> nat" where
  "Search n f = Search_loop f 0 n"

section \<open>The operations of consistent.go\<close>

text \<open>
  A call either panics (\<open>None\<close>) or returns (\<open>Some\<close>). A method with result \<open>error\<close>
  returns the error (\<open>None\<close> for nil) together with the receiver as the call left it.
\<close>

definition MaximumLoad :: "Consistent \<Rightarrow> float64" where
  "MaximumLoad c =
     fceil (fmul (fdiv (float64_of_nat (unat (partition c)))
                       (float64_of_nat (card (dom (bins c)))))
                 (loadBalancingParameter c))"

text \<open>One pass of the loop of \<open>add\<close>, for the replica number \<open>i\<close>.\<close>

definition add_step :: "Bin \<Rightarrow> nat \<Rightarrow> Consistent \<Rightarrow> Consistent" where
  "add_step bin i c =
     (let key = decimal i @ Name bin;
          h = hasher c key
      in c\<lparr>ring := (ring c)(h \<mapsto> bin), sortedSet := sortedSet c @ [h]\<rparr>)"

definition add :: "Consistent \<Rightarrow> Bin \<Rightarrow> Consistent" where
  "add c bin =
     (let c1 = fold (add_step bin) [0..<nat (replicationFactor c)] c;
          c2 = c1\<lparr>sortedSet := sort (sortedSet c1)\<rparr>
      in c2\<lparr>bins := (bins c2)(Name bin \<mapsto> bin)\<rparr>)"

definition delSlice :: "Consistent \<Rightarrow> uint64 \<Rightarrow> Consistent" where
  "delSlice c val = c\<lparr>sortedSet := remove1 val (sortedSet c)\<rparr>"

text \<open>\<open>loads[name]\<close>: a key that is missing reads as the nil slice.\<close>

definition load_list :: "(string \<rightharpoonup> PartitionID list) \<Rightarrow> string \<Rightarrow> PartitionID list" where
  "load_list ls name = (case ls name of None \<Rightarrow> [] | Some l \<Rightarrow> l)"

text \<open>
  \<open>distributeWithLoad\<close>: the walk over the ring. \<open>cnt\<close> is the value of the counter
  \<open>count\<close> when the loop body is entered. The maps \<open>partitions\<close> and \<open>loads\<close> are written only
  on success, so they are returned only then. Reading \<open>sortedSet[idx]\<close> out of range
  and dereferencing a missing ring entry panic.
\<close>

function distributeWithLoad_loop ::
  "Consistent \<Rightarrow> PartitionID \<Rightarrow> nat \<Rightarrow> nat \<Rightarrow> (PartitionID \<rightharpoonup> Bin) \<Rightarrow>
   (string \<rightharpoonup> PartitionID list) \<Rightarrow>
   (error + (PartitionID \<rightharpoonup> Bin) \<times> (string \<rightharpoonup> PartitionID list)) option" where
  "distributeWithLoad_loop c partID idx cnt ps ls =
     (if Suc cnt \<ge> length (sortedSet c) then Some (Inl ErrInsufficientPartitionCapacity)
      else if idx \<ge> length (sortedSet c) then None
      else
        (case ring c (sortedSet c ! idx) of
           None \<Rightarrow> None
         | Some bin \<Rightarrow>
             (let l = load_list ls (Name bin);
                  load = float64_of_nat (length l)
              in if fle (fadd load (Fin 1)) (MaximumLoad c)
                 then Some (Inr (ps(partID \<mapsto> bin), ls(Name bin \<mapsto> l @ [partID])))
                 else distributeWithLoad_loop c partID
                        (if Suc idx \<ge> length (sortedSet c) then 0 else Suc idx)
                        (Suc cnt) ps ls)))"
  by pat_completeness auto
termination
  by (relation "measure (\<lambda>(c, partID, idx, cnt, ps, ls). length (sortedSet c) - cnt)") auto

declare distributeWithLoad_loop.simps [simp del]

definition distributeWithLoad ::
  "Consistent \<Rightarrow> PartitionID \<Rightarrow> nat \<Rightarrow> (PartitionID \<rightharpoonup> Bin) \<Rightarrow>
   (string \<rightharpoonup> PartitionID list) \<Rightarrow>
   (error + (PartitionID \<rightharpoonup> Bin) \<times> (string \<rightharpoonup> PartitionID list)) option" where
  "distributeWithLoad c partID idx ps ls = distributeWithLoad_loop c partID idx 0 ps ls"

text \<open>The index at which the walk for \<open>partID\<close> starts.\<close>

definition start_idx :: "Consistent \<Rightarrow> uint64 \<Rightarrow> nat" where
  "start_idx c partID =
     (let key = hasher c (PutUint64 partID);
          idx = Search (length (sortedSet c)) (\<lambda>i. sortedSet c ! i \<ge> key)
      in if idx \<ge> length (sortedSet c) then 0 else idx)"

text \<open>The loop of \<open>distributePartitions\<close> over \<open>partID = 0, 1, ...\<close> below \<open>partition\<close>.\<close>

function distributePartitions_loop ::
  "Consistent \<Rightarrow> uint64 \<Rightarrow> (PartitionID \<rightharpoonup> Bin) \<Rightarrow> (string \<rightharpoonup> PartitionID list) \<Rightarrow>
   (error + (PartitionID \<rightharpoonup> Bin) \<times> (string \<rightharpoonup> PartitionID list)) option" where
  "distributePartitions_loop c partID ps ls =
     (if partID < partition c then
        (case distributeWithLoad c partID (start_idx c partID) ps ls of
           None \<Rightarrow> None
         | Some (Inl err) \<Rightarrow> Some (Inl err)
         | Some (Inr (ps', ls')) \<Rightarrow> distributePartitions_loop c (partID + 1) ps' ls')
      else Some (Inr (ps, ls)))"
  by pat_completeness auto
termination
proof (relation "measure (\<lambda>(c, partID, ps, ls). unat (partition c) - unat partID)")
  show "wf (measure (\<lambda>(c, partID, ps, ls). unat (partition c) - unat partID))"
    by simp
next
  fix c :: Consistent and partID :: uint64 and ps ls x2 x2a x y
  assume lt: "partID < partition c"
  from lt have "unat partID < unat (partition c)"
    by (simp add: word_less_nat_alt)
  moreover have "unat (partition c) < 2 ^ 64"
    using unsigned_less [of "partition c", where ?'a = nat] by simp
  ultimately have "unat partID + 1 < 2 ^ 64"
    by linarith
  then have "unat (partID + 1) = unat partID + 1"
    by (simp add: unat_word_ariths)
  moreover note \<open>unat partID < unat (partition c)\<close>
  ultimately show "((c, partID + 1, x, y), (c, partID, ps, ls))
      \<in> measure (\<lambda>(c, partID, ps, ls). unat (partition c) - unat partID)"
    by simp
qed

declare distributePartitions_loop.simps [simp del]

text \<open>
  The fresh load table of \<open>distributePartitions\<close>: an empty list under the name of every
  bin of the registry.
\<close>

definition fresh_loads :: "Consistent \<Rightarrow> (string \<rightharpoonup> PartitionID list)" where
  "fresh_loads c = (\<lambda>n. if n \<in> Name ` ran (bins c) then Some [] else None)"

definition distributePartitions :: "Consistent \<Rightarrow> (error option \<times> Consistent) option" where
  "distributePartitions c =
     (case distributePartitions_loop c 0 Map.empty (fresh_loads c) of
        None \<Rightarrow> None
      | Some (Inl err) \<Rightarrow> Some (Some err, c)
      | Some (Inr (ps, ls)) \<Rightarrow> Some (None, c\<lparr>partitions := ps, loads := ls\<rparr>))"

definition FindPartitionID :: "Consistent \<Rightarrow> bytes \<Rightarrow> PartitionID option" where
  "FindPartitionID c key =
     (if partition c = 0 then None else Some (hasher c key mod partition c))"

text \<open>
  \<open>relocate\<close> fills the local map \<open>newBalls\<close> and drops it: the receiver is not written.
  The call panics when \<open>FindPartitionID\<close> divides by zero for some ball.
\<close>

definition relocate :: "Consistent \<Rightarrow> Consistent option" where
  "relocate c =
     (if \<exists>ball \<in> ran (balls c). FindPartitionID c ball = None then None else Some c)"

definition New :: "Config \<Rightarrow> Bin list option \<Rightarrow> (error + Consistent) option" where
  "New cfg bs =
     (let c = \<lparr>hasher = Hasher cfg,
               partition = word_of_int (Partition cfg),
               replicationFactor = ReplicationFactor cfg,
               loadBalancingParameter = LoadBalancingParameter cfg,
               loads = Map.empty, bins = Map.empty, balls = Map.empty,
               partitions = Map.empty, ring = Map.empty, sortedSet = []\<rparr>;
          c1 = fold (\<lambda>bin c. add c bin) (case bs of None \<Rightarrow> [] | Some l \<Rightarrow> l) c
      in if bs \<noteq> None then
           (case distributePartitions c1 of
              None \<Rightarrow> None
            | Some (Some err, _) \<Rightarrow> Some (Inl err)
            | Some (None, c2) \<Rightarrow> Some (Inr c2))
         else Some (Inr c1))"

definition Add :: "Consistent \<Rightarrow> Bin \<Rightarrow> (error option \<times> Consistent) option" where
  "Add c bin =
     (if bins c (Name bin) \<noteq> None then Some (Some ErrBinAlreadyExist, c)
      else
        (case distributePartitions (add c bin) of
           None \<Rightarrow> None
         | Some (Some err, c1) \<Rightarrow> Some (Some err, c1)
         | Some (None, c1) \<Rightarrow>
             (case relocate c1 of None \<Rightarrow> None | Some c2 \<Rightarrow> Some (None, c2))))"

text \<open>One pass of the loop of \<open>Remove\<close>, for the replica number \<open>i\<close>.\<close>

definition Remove_step :: "Bin \<Rightarrow> nat \<Rightarrow> Consistent \<Rightarrow> Consistent" where
  "Remove_step bin i c =
     (let key = Name bin @ decimal i;
          h = hasher c key
      in delSlice (c\<lparr>ring := (ring c)(h := None)\<rparr>) h)"

definition Remove :: "Consistent \<Rightarrow> Bin \<Rightarrow> (error option \<times> Consistent) option" where
  "Remove c bin =
     (if bins c (Name bin) = None then Some (None, c)
      else
        (let c1 = fold (Remove_step bin) [0..<nat (replicationFactor c)] c;
             c2 = c1\<lparr>bins := (bins c1)(Name bin := None)\<rparr>
         in if card (dom (bins c2)) = 0
            then Some (None, c2\<lparr>partitions := Map.empty\<rparr>)
            else distributePartitions c2))"

text \<open>The hasher of the package's tests: 64-bit FNV-1 (\<open>hash/fnv\<close>, \<open>fnv.New64\<close>).\<close>

definition fnv64 :: "bytes \<Rightarrow> uint64" where
  "fnv64 data = fold (\<lambda>b h. (h * 1099511628211) XOR of_char b) data 14695981039346656037"

section \<open>Predicates used in the statements and proofs\<close>

text \<open>
  Every load list has at most \<open>k\<close> elements, and every non-empty one fits under
  \<open>MaximumLoad\<close>.
\<close>

definition bounded_loads ::
  "Consistent \<Rightarrow> uint64 \<Rightarrow> (string \<rightharpoonup> PartitionID list) \<Rightarrow> bool" where
  "bounded_loads c k ls \<longleftrightarrow>
     (\<forall>n l. ls n = Some l \<longrightarrow>
        length l \<le> unat k \<and> (l \<noteq> [] \<longrightarrow> fle (Fin (real (length l))) (MaximumLoad c)))"

text \<open>
  The tables \<open>ps\<close> and \<open>ls\<close> hold exactly the partitions below \<open>k\<close>, each in the
  partition table and in exactly one load list, once.
\<close>

definition covers :: "(PartitionID \<rightharpoonup> Bin) \<Rightarrow> (string \<rightharpoonup> PartitionID list) \<Rightarrow> uint64 \<Rightarrow> bool" where
  "covers ps ls k \<longleftrightarrow>
     dom ps = {p. p < k} \<and>
     (\<forall>p b. ps p = Some b \<longrightarrow> p \<in> set (load_list ls (Name b))) \<and>
     (\<forall>n l. ls n = Some l \<longrightarrow> distinct l \<and> set l \<subseteq> {p. p < k}) \<and>
     (\<forall>n n' l l'. ls n = Some l \<longrightarrow> ls n' = Some l' \<longrightarrow> n \<noteq> n' \<longrightarrow> set l \<inter> set l' = {}) \<and>
     (\<forall>p. p < k \<longrightarrow> (\<exists>n l. ls n = Some l \<and> p \<in> set l))"


text \<open>The ring positions that \<open>add\<close> computes for a bin.\<close>

definition ring_hashes :: "Consistent \<Rightarrow> Bin \<Rightarrow> uint64 list" where
  "ring_hashes c bin =
     map (\<lambda>i. hasher c (decimal i @ Name bin)) [0..<nat (replicationFactor c)]"


text \<open>A sequence of \<open>Add\<close> calls, every one of which returns nil.\<close>

fun Add_all :: "Consistent \<Rightarrow> Bin list \<Rightarrow> Consistent option" where
  "Add_all c [] = Some c"
| "Add_all c (bin # rest) =
     (case Add c bin of Some (None, c') \<Rightarrow> Add_all c' rest | _ \<Rightarrow> None)"

text \<open>Two structures that differ at most in the two tables and the ball registry.\<close>

definition same_ring :: "Consistent \<Rightarrow> Consistent \<Rightarrow> bool" where
  "same_ring c d \<longleftrightarrow>
     hasher c = hasher d \<and> partition c = partition d \<and>
     replicationFactor c = replicationFactor d \<and>
     loadBalancingParameter c = loadBalancingParameter d \<and>
     bins c = bins d \<and> ring c = ring d \<and> sortedSet c = sortedSet d"

text \<open>
  What \<open>add\<close> writes, with the hasher and the replication factor as parameters:
  \<open>add c bin = add_at (hasher c) (replicationFactor c) bin c\<close>.
\<close>

definition add_at :: "(bytes \<Rightarrow> uint64) \<Rightarrow> int \<Rightarrow> Bin \<Rightarrow> Consistent \<Rightarrow> Consistent" where
  "add_at h r bin c =
     (let hs = map (\<lambda>i. h (decimal i @ Name bin)) [0..<nat r]
      in c\<lparr>ring := fold (\<lambda>k m. m(k \<mapsto> bin)) hs (ring c),
           sortedSet := sort (sortedSet c @ hs),
           bins := (bins c)(Name bin \<mapsto> bin)\<rparr>)"

text \<open>The two tables the distribution pass computes for a structure.\<close>

definition tables ::
  "Consistent \<Rightarrow> (error + (PartitionID \<rightharpoonup> Bin) \<times> (string \<rightharpoonup> PartitionID list)) option" where
  "tables c = distributePartitions_loop c 0 Map.empty (fresh_loads c)"

section \<open>Concrete configurations and states\<close>

text \<open>
  The configuration \<open>cfgF\<close> uses the FNV-1 hasher of the tests, two partitions and two
  replicas. \<open>cF0\<close> is the structure \<open>New(cfgF, nil)\<close> returns, \<open>cFa\<close> the structure after
  \<open>Add(a)\<close> on it, \<open>cFb\<close> the one after \<open>Add(b)\<close>, \<open>cFab\<close> after \<open>Add(a)\<close> then \<open>Add(b)\<close>, and
  \<open>cFba\<close> after \<open>Add(b)\<close> then \<open>Add(a)\<close>.
\<close>

definition cfgF :: Config where
  "cfgF = \<lparr>Hasher = fnv64, Partition = 2, ReplicationFactor = 2, LoadBalancingParameter = Fin 1\<rparr>"

definition cF0 :: Consistent where
  "cF0 = \<lparr>hasher = fnv64, partition = 2, replicationFactor = 2, loadBalancingParameter = Fin 1,
           loads = Map.empty, bins = Map.empty, balls = Map.empty, partitions = Map.empty,
           ring = Map.empty, sortedSet = []\<rparr>"

definition cFa :: Consistent where
  "cFa = \<lparr>hasher = fnv64, partition = 2, replicationFactor = 2, loadBalancingParameter = Fin 1,
           loads = [''a'' \<mapsto> [0, 1]],
           bins = [''a'' \<mapsto> NewBin ''a''],
           balls = Map.empty,
           partitions = [0 \<mapsto> NewBin ''a'', 1 \<mapsto> NewBin ''a''],
           ring = [590701660006484860 \<mapsto> NewBin ''a'', 590700560494856459 \<mapsto> NewBin ''a''],
           sortedSet = [590700560494856459, 590701660006484860]\<rparr>"

definition cFb :: Consistent where
  "cFb = \<lparr>hasher = fnv64, partition = 2, replicationFactor = 2, loadBalancingParameter = Fin 1,
           loads = [''b'' \<mapsto> [0, 1]],
           bins = [''b'' \<mapsto> NewBin ''b''],
           balls = Map.empty,
           partitions = [0 \<mapsto> NewBin ''b'', 1 \<mapsto> NewBin ''b''],
           ring = [590701660006484863 \<mapsto> NewBin ''b'', 590700560494856456 \<mapsto> NewBin ''b''],
           sortedSet = [590700560494856456, 590701660006484863]\<rparr>"

definition cFab :: Consistent where
  "cFab = \<lparr>hasher = fnv64, partition = 2, replicationFactor = 2, loadBalancingParameter = Fin 1,
           loads = [''a'' \<mapsto> [1], ''b'' \<mapsto> [0]],
           bins = [''a'' \<mapsto> NewBin ''a'', ''b'' \<mapsto> NewBin ''b''],
           balls = Map.empty,
           partitions = [0 \<mapsto> NewBin ''b'', 1 \<mapsto> NewBin ''a''],
           ring = [590701660006484860 \<mapsto> NewBin ''a'', 590700560494856459 \<mapsto> NewBin ''a'',
                   590701660006484863 \<mapsto> NewBin ''b'', 590700560494856456 \<mapsto> NewBin ''b''],
           sortedSet = [590700560494856456, 590700560494856459,
                        590701660006484860, 590701660006484863]\<rparr>"

definition cFba :: Consistent where
  "cFba = \<lparr>hasher = fnv64, partition = 2, replicationFactor = 2, loadBalancingParameter = Fin 1,
           loads = [''b'' \<mapsto> [0], ''a'' \<mapsto> [1]],
           bins = [''b'' \<mapsto> NewBin ''b'', ''a'' \<mapsto> NewBin ''a''],
           balls = Map.empty,
           partitions = [0 \<mapsto> NewBin ''b'', 1 \<mapsto> NewBin ''a''],
           ring = [590701660006484863 \<mapsto> NewBin ''b'', 590700560494856456 \<mapsto> NewBin ''b'',
                   590701660006484860 \<mapsto> NewBin ''a'', 590700560494856459 \<mapsto> NewBin ''a''],
           sortedSet = [590700560494856456, 590700560494856459,
                        590701660006484860, 590701660006484863]\<rparr>"

text \<open>
  \<open>cFr\<close> is the structure after \<open>Remove(a)\<close> on \<open>cFa\<close>. \<open>cfg6\<close> is the configuration
  "0 partition" of \<open>TestNew\<close>; its load-balancing parameter is the binary64 value of the
  literal \<open>1.20\<close>.
\<close>

definition cFr :: Consistent where
  "cFr = \<lparr>hasher = fnv64, partition = 2, replicationFactor = 2, loadBalancingParameter = Fin 1,
           loads = [''a'' \<mapsto> [0, 1]],
           bins = Map.empty,
           balls = Map.empty,
           partitions = Map.empty,
           ring = [590701660006484860 \<mapsto> NewBin ''a'', 590700560494856459 \<mapsto> NewBin ''a''],
           sortedSet = [590700560494856459, 590701660006484860]\<rparr>"

definition cfg6 :: Config where
  "cfg6 = \<lparr>Hasher = fnv64, Partition = 0, ReplicationFactor = 10,
            LoadBalancingParameter = Fin (5404319552844595 / 4503599627370496)\<rparr>"

text \<open>
  \<open>cfgH\<close> is \<open>cfgF\<close> with load-balancing parameter 1/2: one bin may then hold one of the
  two partitions. \<open>cH0\<close> is the structure \<open>New(cfgH, nil)\<close> returns, \<open>cH1\<close> what \<open>add\<close> makes of
  it for the bin \<open>a\<close>.
\<close>

definition cfgH :: Config where
  "cfgH = \<lparr>Hasher = fnv64, Partition = 2, ReplicationFactor = 2,
            LoadBalancingParameter = Fin (1 / 2)\<rparr>"

definition cH0 :: Consistent where
  "cH0 = \<lparr>hasher = fnv64, partition = 2, replicationFactor = 2,
           loadBalancingParameter = Fin (1 / 2),
           loads = Map.empty, bins = Map.empty, balls = Map.empty, partitions = Map.empty,
           ring = Map.empty, sortedSet = []\<rparr>"

definition cH1 :: Consistent where
  "cH1 = \<lparr>hasher = fnv64, partition = 2, replicationFactor = 2,
           loadBalancingParameter = Fin (1 / 2),
           loads = Map.empty,
           bins = [''a'' \<mapsto> NewBin ''a''],
           balls = Map.empty,
           partitions = Map.empty,
           ring = [590701660006484860 \<mapsto> NewBin ''a'', 590700560494856459 \<mapsto> NewBin ''a''],
           sortedSet = [590700560494856459, 590701660006484860]\<rparr>"

text \<open>
  With one replica the ring of a single bin has one position: \<open>c30\<close> is the empty
  structure of the configuration \<open>cfg3\<close>, \<open>c31\<close> what \<open>add\<close> makes of it for the bin \<open>a\<close>.
\<close>

definition cfg3 :: Config where
  "cfg3 = \<lparr>Hasher = fnv64, Partition = 1, ReplicationFactor = 1, LoadBalancingParameter = Fin 1\<rparr>"

definition c30 :: Consistent where
  "c30 = \<lparr>hasher = fnv64, partition = 1, replicationFactor = 1, loadBalancingParameter = Fin 1,
           loads = Map.empty, bins = Map.empty, balls = Map.empty, partitions = Map.empty,
           ring = Map.empty, sortedSet = []\<rparr>"

definition c31 :: Consistent where
  "c31 = \<lparr>hasher = fnv64, partition = 1, replicationFactor = 1, loadBalancingParameter = Fin 1,
           loads = Map.empty,
           bins = [''a'' \<mapsto> NewBin ''a''],
           balls = Map.empty,
           partitions = Map.empty,
           ring = [590701660006484860 \<mapsto> NewBin ''a''],
           sortedSet = [590701660006484860]\<rparr>"

text \<open>
  A hasher under which all keys of one length collide, and the structures it gives with one
  partition and two replicas (the configuration \<open>cfgL\<close>): \<open>cL0\<close> empty, \<open>cLa\<close> after \<open>Add(a)\<close>, \<open>cLb\<close> after \<open>Add(b)\<close>,
  \<open>cLab\<close> after \<open>Add(a)\<close> then \<open>Add(b)\<close>, \<open>cLba\<close> after \<open>Add(b)\<close> then \<open>Add(a)\<close>.
\<close>

definition len_hasher :: "bytes \<Rightarrow> uint64" where
  "len_hasher data = of_nat (length data)"

definition cfgL :: Config where
  "cfgL = \<lparr>Hasher = len_hasher, Partition = 1, ReplicationFactor = 2,
            LoadBalancingParameter = Fin 1\<rparr>"

definition cL0 :: Consistent where
  "cL0 = \<lparr>hasher = len_hasher, partition = 1, replicationFactor = 2,
           loadBalancingParameter = Fin 1,
           loads = Map.empty, bins = Map.empty, balls = Map.empty, partitions = Map.empty,
           ring = Map.empty, sortedSet = []\<rparr>"

definition cLa :: Consistent where
  "cLa = \<lparr>hasher = len_hasher, partition = 1, replicationFactor = 2,
           loadBalancingParameter = Fin 1,
           loads = [''a'' \<mapsto> [0]],
           bins = [''a'' \<mapsto> NewBin ''a''],
           balls = Map.empty,
           partitions = [0 \<mapsto> NewBin ''a''],
           ring = [2 \<mapsto> NewBin ''a''],
           sortedSet = [2, 2]\<rparr>"

definition cLb :: Consistent where
  "cLb = \<lparr>hasher = len_hasher, partition = 1, replicationFactor = 2,
           loadBalancingParameter = Fin 1,
           loads = [''b'' \<mapsto> [0]],
           bins = [''b'' \<mapsto> NewBin ''b''],
           balls = Map.empty,
           partitions = [0 \<mapsto> NewBin ''b''],
           ring = [2 \<mapsto> NewBin ''b''],
           sortedSet = [2, 2]\<rparr>"

definition cLab :: Consistent where
  "cLab = \<lparr>hasher = len_hasher, partition = 1, replicationFactor = 2,
           loadBalancingParameter = Fin 1,
           loads = [''a'' \<mapsto> [], ''b'' \<mapsto> [0]],
           bins = [''a'' \<mapsto> NewBin ''a'', ''b'' \<mapsto> NewBin ''b''],
           balls = Map.empty,
           partitions = [0 \<mapsto> NewBin ''b''],
           ring = [2 \<mapsto> NewBin ''b''],
           sortedSet = [2, 2, 2, 2]\<rparr>"

definition cLba :: Consistent where
  "cLba = \<lparr>hasher = len_hasher, partition = 1, replicationFactor = 2,
           loadBalancingParameter = Fin 1,
           loads = [''b'' \<mapsto> [], ''a'' \<mapsto> [0]],
           bins = [''b'' \<mapsto> NewBin ''b'', ''a'' \<mapsto> NewBin ''a''],
           balls = Map.empty,
           partitions = [0 \<mapsto> NewBin ''a''],
           ring = [2 \<mapsto> NewBin ''a''],
           sortedSet = [2, 2, 2, 2]\<rparr>"

text \<open>
  A hasher that returns the last byte of its key, and the configuration \<open>cfgR\<close> with it: 58
  partitions, one replica and load-balancing parameter 3.5. The seven bins \<open>binsR\<close> then sit
  at the ring positions 97 to 103, and every partition key hashes to 0, so that every walk
  starts at the bin \<open>a\<close>. \<open>cR1\<close> is the structure \<open>New\<close> has after its calls of \<open>add\<close>, \<open>cR\<close> the
  one \<open>New(cfgR, binsR)\<close> returns: the bin \<open>a\<close> holds the partitions \<open>first30\<close> (0 to 29), the bin \<open>b\<close> the
  partitions \<open>last28\<close> (30 to 57).
\<close>

definition last_hasher :: "bytes \<Rightarrow> uint64" where
  "last_hasher data = fold (\<lambda>b h. of_char b) data 0"

definition cfgR :: Config where
  "cfgR = \<lparr>Hasher = last_hasher, Partition = 58, ReplicationFactor = 1,
            LoadBalancingParameter = Fin (7 / 2)\<rparr>"

definition binsR :: "Bin list" where
  "binsR = [NewBin ''a'', NewBin ''b'', NewBin ''c'', NewBin ''d'', NewBin ''e'', NewBin ''f'',
            NewBin ''g'']"

definition cR1 :: Consistent where
  "cR1 = \<lparr>hasher = last_hasher, partition = 58, replicationFactor = 1,
           loadBalancingParameter = Fin (7 / 2),
           loads = Map.empty,
           bins = [''a'' \<mapsto> NewBin ''a'', ''b'' \<mapsto> NewBin ''b'',
                   ''c'' \<mapsto> NewBin ''c'', ''d'' \<mapsto> NewBin ''d'',
                   ''e'' \<mapsto> NewBin ''e'', ''f'' \<mapsto> NewBin ''f'',
                   ''g'' \<mapsto> NewBin ''g''],
           balls = Map.empty,
           partitions = Map.empty,
           ring = [97 \<mapsto> NewBin ''a'', 98 \<mapsto> NewBin ''b'', 99 \<mapsto> NewBin ''c'',
                   100 \<mapsto> NewBin ''d'', 101 \<mapsto> NewBin ''e'', 102 \<mapsto> NewBin ''f'',
                   103 \<mapsto> NewBin ''g''],
           sortedSet = [97, 98, 99, 100, 101, 102, 103]\<rparr>"

definition first30 :: "PartitionID list" where
  "first30 = map of_nat [0..<30]"

definition last28 :: "PartitionID list" where
  "last28 = map of_nat [30..<58]"

definition cR :: Consistent where
  "cR = \<lparr>hasher = last_hasher, partition = 58, replicationFactor = 1,
          loadBalancingParameter = Fin (7 / 2),
          loads = [''a'' \<mapsto> first30, ''b'' \<mapsto> last28, ''c'' \<mapsto> [],
                   ''d'' \<mapsto> [], ''e'' \<mapsto> [], ''f'' \<mapsto> [], ''g'' \<mapsto> []],
          bins = [''a'' \<mapsto> NewBin ''a'', ''b'' \<mapsto> NewBin ''b'',
                  ''c'' \<mapsto> NewBin ''c'', ''d'' \<mapsto> NewBin ''d'',
                  ''e'' \<mapsto> NewBin ''e'', ''f'' \<mapsto> NewBin ''f'',
                  ''g'' \<mapsto> NewBin ''g''],
          balls = Map.empty,
          partitions = fold (\<lambda>p m. m(p \<mapsto> NewBin ''b'')) last28
                         (fold (\<lambda>p m. m(p \<mapsto> NewBin ''a'')) first30 Map.empty),
          ring = [97 \<mapsto> NewBin ''a'', 98 \<mapsto> NewBin ''b'', 99 \<mapsto> NewBin ''c'',
                  100 \<mapsto> NewBin ''d'', 101 \<mapsto> NewBin ''e'', 102 \<mapsto> NewBin ''f'',
                  103 \<mapsto> NewBin ''g''],
          sortedSet = [97, 98, 99, 100, 101, 102, 103]\<rparr>"
section \<open>Exact cases of the float64 arithmetic\<close>

lemma rne_of_int: "rne (of_int m) = m"
  by (simp add: rne_def)

lemma rne_ge_floor: "\<lfloor>x\<rfloor> \<le> rne x"
  by (simp add: rne_def Let_def)

lemma pow2_pos: "0 < pow2 e"
  by (simp add: pow2_def)

lemma round_pos_exact:
  assumes x: "x = of_int m * pow2 (max (binade x) (- 1022) - 52)" and "x < pow2 1024"
  shows "round_pos x = Fin x"
proof -
  let ?u = "pow2 (max (binade x) (- 1022) - 52)"
  have "x / ?u = of_int m"
    using x pow2_pos [of "max (binade x) (- 1022) - 52"] by (simp add: field_simps)
  then have "of_int (rne (x / ?u)) * ?u = x"
    using x by (simp add: rne_of_int)
  with assms(2) show ?thesis
    by (simp add: round_pos_def Let_def)
qed

text \<open>The integers up to \<open>2 ^ 53\<close> are binary64 values.\<close>

lemma round64_of_nat:
  assumes "n \<le> 2 ^ 53"
  shows "round64 (real n) = Fin (real n)"
proof (cases "n = 0")
  case True
  then show ?thesis by (simp add: round64_def)
next
  case False
  then have pos: "0 < int n" by simp
  let ?b = "bitlen (int n)"
  from bitlen_bounds [OF pos] have lo: "2 ^ nat (?b - 1) \<le> int n" and hi: "int n < 2 ^ nat ?b"
    by simp_all
  have b1: "1 \<le> ?b" using pos by (simp add: bitlen_alt_def)
  have le53: "(2::int) ^ nat (?b - 1) \<le> 2 ^ 53"
    using lo assms by (metis of_nat_le_iff of_nat_numeral of_nat_power order_trans)
  have "nat (?b - 1) \<le> 53"
    by (rule power_le_imp_le_exp [where a = "2::int"]) (use le53 in simp_all)
  then have b54: "?b \<le> 54" by simp
  have bin: "binade (real n) = ?b - 1"
    using False by (simp add: binade_def)
  have small: "real n < pow2 1024"
  proof -
    have "real n \<le> 2 ^ 53" using assms by (metis of_nat_le_iff of_nat_numeral of_nat_power)
    also have "\<dots> < (2::real) ^ 1024" by (rule power_strict_increasing) simp_all
    finally show ?thesis by (simp add: pow2_def)
  qed
  have mx: "max (binade (real n)) (- 1022) = ?b - 1"
    using bin b1 by simp
  have "\<exists>m. real n = of_int m * pow2 (?b - 1 - 52)"
  proof (cases "?b \<le> 53")
    case True
    then have "pow2 (?b - 1 - 52) = 1 / 2 ^ nat (53 - ?b)"
      by (cases "?b = 53") (simp_all add: pow2_def)
    then have "real n = of_int (int n * 2 ^ nat (53 - ?b)) * pow2 (?b - 1 - 52)"
      by simp
    then show ?thesis ..
  next
    case False
    with b54 have b: "?b = 54" by simp
    with lo have "2 ^ 53 \<le> int n" by simp
    with assms have "n = 2 ^ 53"
      by (metis (mono_tags) of_nat_le_iff of_nat_numeral of_nat_power order_antisym_conv)
    with b have "real n = of_int (2 ^ 52) * pow2 (?b - 1 - 52)"
      by (simp add: pow2_def)
    then show ?thesis ..
  qed
  then obtain m where "real n = of_int m * pow2 (max (binade (real n)) (- 1022) - 52)"
    unfolding mx by blast
  from round_pos_exact [OF this small] False show ?thesis
    by (simp add: round64_def)
qed

lemma float64_of_nat_exact: "n \<le> 2 ^ 53 \<Longrightarrow> float64_of_nat n = Fin (real n)"
  by (simp add: float64_of_nat_def round64_of_nat)

lemma fadd_one_exact:
  assumes "n < 2 ^ 53"
  shows "fadd (float64_of_nat n) (Fin 1) = Fin (real n + 1)"
proof -
  from assms have "Suc n \<le> 2 ^ 53" by simp
  from round64_of_nat [OF this] assms show ?thesis
    by (simp add: float64_of_nat_exact add.commute)
qed

text \<open>The conversion of a positive integer is positive, or infinite.\<close>

lemma float64_of_nat_pos:
  assumes "0 < n"
  shows "float64_of_nat n = PInf \<or> (\<exists>r. 0 < r \<and> float64_of_nat n = Fin r)"
proof -
  let ?x = "real n"
  let ?e = "max (binade ?x) (- 1022)"
  let ?u = "pow2 (?e - 52)"
  from assms have pos: "0 < int n" by simp
  from assms have x1: "1 \<le> ?x" by simp
  have b1: "1 \<le> bitlen (int n)" using pos by (simp add: bitlen_alt_def)
  have e: "?e = bitlen (int n) - 1"
    using x1 b1 by (simp add: binade_def)
  have "?u \<le> ?x"
  proof (cases "52 \<le> ?e")
    case True
    then have "?u = 2 ^ nat (?e - 52)" by (simp add: pow2_def)
    also have "\<dots> \<le> (2::real) ^ nat ?e" by (rule power_increasing) simp_all
    also have "\<dots> \<le> ?x"
    proof -
      from bitlen_bounds [OF pos] have "2 ^ nat (bitlen (int n) - 1) \<le> int n" by simp
      then have "real_of_int (2 ^ nat (bitlen (int n) - 1)) \<le> real_of_int (int n)"
        by (rule of_int_le_iff [THEN iffD2])
      then show ?thesis by (simp add: e)
    qed
    finally show ?thesis .
  next
    case False
    then have "?u = 1 / 2 ^ nat (52 - ?e)" by (simp add: pow2_def)
    also have "\<dots> \<le> 1" by simp
    finally show ?thesis using x1 by simp
  qed
  then have "1 \<le> ?x / ?u" using pow2_pos [of "?e - 52"] by (simp add: field_simps)
  then have "1 \<le> \<lfloor>?x / ?u\<rfloor>" by simp
  with rne_ge_floor [of "?x / ?u"] have "0 < rne (?x / ?u)" by linarith
  then have r: "0 < of_int (rne (?x / ?u)) * ?u"
    using pow2_pos [of "?e - 52"] by simp
  show ?thesis
  proof (cases "pow2 1024 \<le> of_int (rne (?x / ?u)) * ?u")
    case True
    with assms show ?thesis
      by (simp add: float64_of_nat_def round64_def round_pos_def Let_def)
  next
    case False
    with assms r show ?thesis
      by (simp add: float64_of_nat_def round64_def round_pos_def Let_def)
  qed
qed

lemma fle_Fin_mono: "fle (Fin a) m \<Longrightarrow> b \<le> a \<Longrightarrow> fle (Fin b) m"
  by (cases m) auto

text \<open>Evaluating the arithmetic on numerals.\<close>

lemmas round64_eval = float64_of_nat_def round64_def round_pos_def binade_def rne_def pow2_def
  Let_def compute_bitlen inf_of_sign_def

lemma ceiling_half: "\<lceil>1 / 2 :: real\<rceil> = 1"
  by (simp add: ceiling_eq_iff)

section \<open>Properties of the distribution pass\<close>

text \<open>
  A successful walk assigns the partition to one bin found on the ring whose load list,
  one element longer, still fits under \<open>MaximumLoad\<close>, and appends the partition to that list.
\<close>

lemma distributeWithLoad_loop_Inr:
  assumes "distributeWithLoad_loop c partID idx cnt ps ls = Some (Inr (ps', ls'))"
  shows "\<exists>bin. fle (fadd (float64_of_nat (length (load_list ls (Name bin)))) (Fin 1)) (MaximumLoad c) \<and>
           ps' = ps(partID \<mapsto> bin) \<and>
           ls' = ls(Name bin \<mapsto> load_list ls (Name bin) @ [partID])"
  using assms
proof (induction c partID idx cnt ps ls rule: distributeWithLoad_loop.induct)
  case (1 c partID idx cnt ps ls)
  note run = "1.prems" [unfolded distributeWithLoad_loop.simps [of c partID idx cnt ps ls]]
  from run have a: "\<not> length (sortedSet c) \<le> Suc cnt" and b: "\<not> length (sortedSet c) \<le> idx"
    by (auto split: if_splits)
  from run a b obtain bin where r: "ring c (sortedSet c ! idx) = Some bin"
    by (auto split: option.splits)
  show ?case
  proof (cases "fle (fadd (float64_of_nat (length (load_list ls (Name bin)))) (Fin 1)) (MaximumLoad c)")
    case True
    with run a b r show ?thesis
      by (auto simp: Let_def)
  next
    case False
    with run a b r have
      "distributeWithLoad_loop c partID (if length (sortedSet c) \<le> Suc idx then 0 else Suc idx)
         (Suc cnt) ps ls = Some (Inr (ps', ls'))"
      by (simp add: Let_def)
    with "1.IH" [OF a b r refl refl False] show ?thesis
      by simp
  qed
qed

lemma word_less_Suc_set:
  fixes k n :: uint64
  assumes "k < n"
  shows "{p. p < k + 1} = insert k {p. p < k}"
proof -
  have "unat k < unat n" using assms by (simp add: word_less_nat_alt)
  moreover have "unat n < 2 ^ 64"
    using unsigned_less [of n, where ?'a = nat] by simp
  ultimately have "unat (k + 1) = unat k + 1"
    by (simp add: unat_word_ariths)
  then show ?thesis
    by (auto simp: word_less_nat_alt word_unat_eq_iff)
qed
subsection \<open>The load bound\<close>

lemma unat_plus_one:
  fixes k n :: uint64
  assumes "k < n"
  shows "unat (k + 1) = unat k + 1"
proof -
  have "unat k < unat n" using assms by (simp add: word_less_nat_alt)
  moreover have "unat n < 2 ^ 64"
    using unsigned_less [of n, where ?'a = nat] by simp
  ultimately show ?thesis
    by (simp add: unat_word_ariths)
qed

lemma bounded_loads_step:
  assumes b: "bounded_loads c k ls" and lt: "k < partition c"
    and small: "unat (partition c) \<le> 2 ^ 53"
    and room: "fle (fadd (float64_of_nat (length (load_list ls n))) (Fin 1)) (MaximumLoad c)"
  shows "bounded_loads c (k + 1) (ls(n \<mapsto> load_list ls n @ [p])) \<and> fle (Fin 1) (MaximumLoad c)"
proof -
  let ?len = "length (load_list ls n)"
  have len: "?len \<le> unat k"
    using b by (auto simp: bounded_loads_def load_list_def split: option.splits)
  have "unat k < unat (partition c)" using lt by (simp add: word_less_nat_alt)
  with len small have "?len < 2 ^ 53" by linarith
  from fadd_one_exact [OF this] room have r: "fle (Fin (real ?len + 1)) (MaximumLoad c)"
    by simp
  then have one: "fle (Fin 1) (MaximumLoad c)"
    by (rule fle_Fin_mono) simp
  have u: "unat (k + 1) = unat k + 1" by (rule unat_plus_one [OF lt])
  have "bounded_loads c (k + 1) (ls(n \<mapsto> load_list ls n @ [p]))"
    unfolding bounded_loads_def
  proof (intro allI impI)
    fix n' l assume a: "(ls(n \<mapsto> load_list ls n @ [p])) n' = Some l"
    show "length l \<le> unat (k + 1) \<and> (l \<noteq> [] \<longrightarrow> fle (Fin (real (length l))) (MaximumLoad c))"
    proof (cases "n' = n")
      case True
      with a have "l = load_list ls n @ [p]" by simp
      with len r u show ?thesis by (simp add: add.commute)
    next
      case False
      with a have "ls n' = Some l" by simp
      with b have "length l \<le> unat k"
        and "l \<noteq> [] \<longrightarrow> fle (Fin (real (length l))) (MaximumLoad c)"
        unfolding bounded_loads_def by blast+
      with u show ?thesis by simp
    qed
  qed
  with one show ?thesis by simp
qed

lemma distributePartitions_loop_bounded:
  assumes "distributePartitions_loop c partID ps ls = Some (Inr (ps', ls'))"
    and "bounded_loads c partID ls" and "unat (partition c) \<le> 2 ^ 53"
  shows "(\<forall>n l. ls' n = Some l \<longrightarrow> l \<noteq> [] \<longrightarrow> fle (Fin (real (length l))) (MaximumLoad c)) \<and>
         (partID < partition c \<longrightarrow> fle (Fin 1) (MaximumLoad c))"
  using assms
proof (induction c partID ps ls rule: distributePartitions_loop.induct)
  case (1 c partID ps ls)
  note run = "1.prems"(1) [unfolded distributePartitions_loop.simps [of c partID ps ls]]
  show ?case
  proof (cases "partID < partition c")
    case False
    with run "1.prems"(2) show ?thesis by (auto simp: bounded_loads_def)
  next
    case True
    with run obtain ps1 ls1 where
      step: "distributeWithLoad c partID (start_idx c partID) ps ls = Some (Inr (ps1, ls1))"
      and rest: "distributePartitions_loop c (partID + 1) ps1 ls1 = Some (Inr (ps', ls'))"
      by (auto split: option.splits sum.splits)
    from step have
      "distributeWithLoad_loop c partID (start_idx c partID) 0 ps ls = Some (Inr (ps1, ls1))"
      by (simp add: distributeWithLoad_def)
    from distributeWithLoad_loop_Inr [OF this] obtain bin :: Bin where
      room: "fle (fadd (float64_of_nat (length (load_list ls (Name bin)))) (Fin 1)) (MaximumLoad c)"
      and ls1: "ls1 = ls(Name bin \<mapsto> load_list ls (Name bin) @ [partID])"
      by blast
    from bounded_loads_step [OF "1.prems"(2) True "1.prems"(3) room, of partID] ls1
    have b1: "bounded_loads c (partID + 1) ls1" and one: "fle (Fin 1) (MaximumLoad c)"
      by simp_all
    from "1.IH" [OF True step refl refl rest b1 "1.prems"(3)] one show ?thesis
      by simp
  qed
qed

lemma bounded_fresh_loads: "bounded_loads c 0 (fresh_loads c)"
  by (simp add: bounded_loads_def fresh_loads_def)

lemma MaximumLoad_no_partition:
  assumes "partition c = 0" and "0 < card (dom (bins c))"
    and "loadBalancingParameter c = Fin lbp"
  shows "MaximumLoad c = Fin 0"
proof -
  have z: "float64_of_nat 0 = Fin 0" by (simp add: float64_of_nat_def round64_def)
  from float64_of_nat_pos [OF assms(2)]
  have "fdiv (Fin 0) (float64_of_nat (card (dom (bins c)))) = Fin 0"
    by (auto simp: round64_def)
  with assms z show ?thesis
    by (simp add: MaximumLoad_def round64_def)
qed

text \<open>
  Claim C1, as the code has it. After a successful distribution pass over at least one bin,
  every list of the load table has at most \<open>MaximumLoad()\<close> partitions, where
  \<open>MaximumLoad()\<close> is \<open>math.Ceil(float64(partition) / float64(len(bins)) * loadBalancingParameter)\<close>
  as float64 arithmetic computes it, every operation rounded to the nearest binary64 value.
  The pass is \<open>distributePartitions\<close>, which \<open>New\<close>, \<open>Add\<close> and \<open>Remove\<close> all call; the
  load-balancing parameter is finite and the partition count at most \<open>2 ^ 53\<close>, so that every
  load is a binary64 value. The rounded quotient can lie above the exact one, and the value
  can then be one more than the ceiling of the exact product.
\<close>

theorem load_bound:
  assumes pass: "distributePartitions c = Some (None, c')"
    and bins: "0 < card (dom (bins c))"
    and lbp: "loadBalancingParameter c = Fin lbp"
    and small: "unat (partition c) \<le> 2 ^ 53"
    and l: "loads c' n = Some l"
  shows "fle (Fin (real (length l)))
           (fceil (fmul (fdiv (float64_of_nat (unat (partition c)))
                              (float64_of_nat (card (dom (bins c)))))
                        (Fin lbp)))"
proof -
  have M: "fceil (fmul (fdiv (float64_of_nat (unat (partition c)))
                              (float64_of_nat (card (dom (bins c))))) (Fin lbp)) = MaximumLoad c"
    using lbp by (simp add: MaximumLoad_def)
  from pass obtain ps where
    loop: "distributePartitions_loop c 0 Map.empty (fresh_loads c) = Some (Inr (ps, loads c'))"
    by (auto simp: distributePartitions_def split: option.splits sum.splits)
  note inv = distributePartitions_loop_bounded [OF loop bounded_fresh_loads small]
  have "fle (Fin (real (length l))) (MaximumLoad c)"
  proof (cases "l = []")
    case False
    with inv l show ?thesis by blast
  next
    case True
    show ?thesis
    proof (cases "partition c = 0")
      case True
      from MaximumLoad_no_partition [OF True bins lbp] \<open>l = []\<close> show ?thesis by simp
    next
      case False
      then have "0 < partition c" by (simp add: word_greater_zero_iff)
      with inv have "fle (Fin 1) (MaximumLoad c)" by blast
      then have "fle (Fin 0) (MaximumLoad c)" by (rule fle_Fin_mono) simp
      with \<open>l = []\<close> show ?thesis by simp
    qed
  qed
  then show ?thesis by (simp only: M)
qed
subsection \<open>Total coverage\<close>

lemma load_list_upd:
  "load_list (ls(n \<mapsto> l)) n' = (if n' = n then l else load_list ls n')"
  by (simp add: load_list_def)

lemma covers_step:
  fixes bin :: Bin
  assumes cov: "covers ps ls k" and lt: "k < n"
  shows "covers (ps(k \<mapsto> bin)) (ls(Name bin \<mapsto> load_list ls (Name bin) @ [k])) (k + 1)"
proof -
  note S = word_less_Suc_set [OF lt]
  let ?l = "load_list ls (Name bin)"
  from cov have c1: "dom ps = {p. p < k}"
    and c2: "\<And>p b. ps p = Some b \<Longrightarrow> p \<in> set (load_list ls (Name b))"
    and c3: "\<And>n l. ls n = Some l \<Longrightarrow> distinct l \<and> set l \<subseteq> {p. p < k}"
    and c4: "\<And>n n' l l'. ls n = Some l \<Longrightarrow> ls n' = Some l' \<Longrightarrow> n \<noteq> n' \<Longrightarrow> set l \<inter> set l' = {}"
    and c5: "\<And>p. p < k \<Longrightarrow> \<exists>n l. ls n = Some l \<and> p \<in> set l"
    unfolding covers_def by blast+
  have l: "distinct ?l \<and> set ?l \<subseteq> {p. p < k}"
    using c3 by (auto simp: load_list_def split: option.splits)
  have l_disj: "set ?l \<inter> set l' = {}" if "ls n' = Some l'" "n' \<noteq> Name bin" for n' l'
  proof (cases "ls (Name bin)")
    case None
    then show ?thesis by (simp add: load_list_def)
  next
    case (Some l0)
    with c4 [OF Some that(1)] that(2) show ?thesis by (simp add: load_list_def)
  qed
  have k_notin: "k \<notin> set l'" if "ls n' = Some l'" for n' l'
    using c3 [OF that] by auto
  have 1: "dom (ps(k \<mapsto> bin)) = {p. p < k + 1}"
    using c1 by (simp add: S)
  have 2: "\<forall>p b. (ps(k \<mapsto> bin)) p = Some b \<longrightarrow>
             p \<in> set (load_list (ls(Name bin \<mapsto> ?l @ [k])) (Name b))"
  proof (intro allI impI)
    fix p and b :: Bin
    assume a: "(ps(k \<mapsto> bin)) p = Some b"
    show "p \<in> set (load_list (ls(Name bin \<mapsto> ?l @ [k])) (Name b))"
    proof (cases "p = k")
      case True
      with a show ?thesis by (simp add: load_list_upd)
    next
      case False
      with a have "p \<in> set (load_list ls (Name b))" by (simp add: c2)
      then show ?thesis by (auto simp: load_list_upd)
    qed
  qed
  have 3: "\<forall>n l. (ls(Name bin \<mapsto> ?l @ [k])) n = Some l \<longrightarrow> distinct l \<and> set l \<subseteq> {p. p < k + 1}"
    using c3 l by (auto simp: S)
  have 4: "\<forall>n n' l l'. (ls(Name bin \<mapsto> ?l @ [k])) n = Some l \<longrightarrow>
             (ls(Name bin \<mapsto> ?l @ [k])) n' = Some l' \<longrightarrow> n \<noteq> n' \<longrightarrow> set l \<inter> set l' = {}"
  proof (intro allI impI)
    fix n n' l l'
    assume a: "(ls(Name bin \<mapsto> ?l @ [k])) n = Some l" "(ls(Name bin \<mapsto> ?l @ [k])) n' = Some l'" "n \<noteq> n'"
    show "set l \<inter> set l' = {}"
    proof (cases "n = Name bin")
      case True
      with a have "l = ?l @ [k]" "ls n' = Some l'" "n' \<noteq> Name bin" by auto
      with l_disj [of n' l'] k_notin [of n' l'] show ?thesis by auto
    next
      case False
      show ?thesis
      proof (cases "n' = Name bin")
        case True
        with a False have "l' = ?l @ [k]" "ls n = Some l" "n \<noteq> Name bin" by auto
        with l_disj [of n l] k_notin [of n l] show ?thesis by auto
      next
        case False
        with \<open>n \<noteq> Name bin\<close> a c4 [of n l n' l'] show ?thesis by simp
      qed
    qed
  qed
  have 5: "\<forall>p. p < k + 1 \<longrightarrow> (\<exists>n l. (ls(Name bin \<mapsto> ?l @ [k])) n = Some l \<and> p \<in> set l)"
  proof (intro allI impI)
    fix p assume "p < k + 1"
    then have "p = k \<or> p < k" using S by auto
    then show "\<exists>n l. (ls(Name bin \<mapsto> ?l @ [k])) n = Some l \<and> p \<in> set l"
    proof
      assume "p = k" then show ?thesis by auto
    next
      assume "p < k"
      with c5 obtain n l where nl: "ls n = Some l" "p \<in> set l" by blast
      show ?thesis
      proof (cases "n = Name bin")
        case True
        with nl have "p \<in> set (?l @ [k])" by (simp add: load_list_def)
        then show ?thesis by (intro exI [of _ "Name bin"]) auto
      next
        case False
        with nl show ?thesis by (intro exI [of _ n]) auto
      qed
    qed
  qed
  from 1 2 3 4 5 show ?thesis unfolding covers_def by blast
qed

lemma distributePartitions_loop_covers:
  assumes "distributePartitions_loop c partID ps ls = Some (Inr (ps', ls'))"
    and "covers ps ls partID" and "partID \<le> partition c"
  shows "covers ps' ls' (partition c)"
  using assms
proof (induction c partID ps ls rule: distributePartitions_loop.induct)
  case (1 c partID ps ls)
  note run = "1.prems"(1) [unfolded distributePartitions_loop.simps [of c partID ps ls]]
  show ?case
  proof (cases "partID < partition c")
    case False
    with "1.prems"(3) have "partID = partition c" by simp
    with run "1.prems"(2) show ?thesis by simp
  next
    case True
    with run obtain ps1 ls1 where
      step: "distributeWithLoad c partID (start_idx c partID) ps ls = Some (Inr (ps1, ls1))"
      and rest: "distributePartitions_loop c (partID + 1) ps1 ls1 = Some (Inr (ps', ls'))"
      by (auto split: option.splits sum.splits)
    from step have "distributeWithLoad_loop c partID (start_idx c partID) 0 ps ls = Some (Inr (ps1, ls1))"
      by (simp add: distributeWithLoad_def)
    from distributeWithLoad_loop_Inr [OF this] obtain bin :: Bin where
      "ps1 = ps(partID \<mapsto> bin)" "ls1 = ls(Name bin \<mapsto> load_list ls (Name bin) @ [partID])"
      by blast
    with covers_step [OF "1.prems"(2) True] have "covers ps1 ls1 (partID + 1)" by simp
    moreover from True have "partID + 1 \<le> partition c" by (rule inc_le)
    ultimately show ?thesis
      using "1.IH" [OF True step refl refl rest] by simp
  qed
qed

lemma covers_fresh: "covers Map.empty (fresh_loads c) 0"
  by (auto simp: covers_def fresh_loads_def)

text \<open>
  Claim C2. After a successful distribution pass the partition table is defined exactly on the
  partition ids below \<open>partition\<close>, every load list is free of duplicates, the load lists of
  two different bins are disjoint, and together the load lists hold exactly the partition ids
  below \<open>partition\<close>.
\<close>

theorem total_coverage:
  assumes pass: "distributePartitions c = Some (None, c')"
  shows "dom (partitions c') = {p. p < partition c} \<and>
         (\<forall>n l. loads c' n = Some l \<longrightarrow> distinct l) \<and>
         (\<forall>n n' l l'. loads c' n = Some l \<longrightarrow> loads c' n' = Some l' \<longrightarrow> n \<noteq> n' \<longrightarrow>
            set l \<inter> set l' = {}) \<and>
         (\<Union>l \<in> ran (loads c'). set l) = {p. p < partition c}"
proof -
  from pass have
    loop: "distributePartitions_loop c 0 Map.empty (fresh_loads c) =
             Some (Inr (partitions c', loads c'))"
    by (auto simp: distributePartitions_def split: option.splits sum.splits)
  have cov: "covers (partitions c') (loads c') (partition c)"
    by (rule distributePartitions_loop_covers [OF loop covers_fresh]) simp
  have "(\<Union>l \<in> ran (loads c'). set l) = {p. p < partition c}"
    using cov by (fastforce simp: covers_def ran_def)
  with cov show ?thesis
    unfolding covers_def by blast
qed
section \<open>What \<open>add\<close> writes\<close>

lemma fold_add_step:
  "fold (add_step bin) ns c =
     c\<lparr>ring := fold (\<lambda>h m. m(h \<mapsto> bin)) (map (\<lambda>i. hasher c (decimal i @ Name bin)) ns) (ring c),
       sortedSet := sortedSet c @ map (\<lambda>i. hasher c (decimal i @ Name bin)) ns\<rparr>"
  by (induction ns arbitrary: c) (simp_all add: add_step_def Let_def)

lemma add_eq:
  "add c bin =
     c\<lparr>ring := fold (\<lambda>h m. m(h \<mapsto> bin)) (ring_hashes c bin) (ring c),
       sortedSet := sort (sortedSet c @ ring_hashes c bin),
       bins := (bins c)(Name bin \<mapsto> bin)\<rparr>"
  by (simp add: add_def fold_add_step ring_hashes_def Let_def)

section \<open>Errors and frame of the pass and of \<open>Add\<close>\<close>

lemma distributeWithLoad_loop_Inl:
  assumes "distributeWithLoad_loop c partID idx cnt ps ls = Some (Inl e)"
  shows "e = ErrInsufficientPartitionCapacity"
  using assms
proof (induction c partID idx cnt ps ls rule: distributeWithLoad_loop.induct)
  case (1 c partID idx cnt ps ls)
  note run = "1.prems" [unfolded distributeWithLoad_loop.simps [of c partID idx cnt ps ls]]
  show ?case
  proof (cases "length (sortedSet c) \<le> Suc cnt")
    case True
    with run show ?thesis by simp
  next
    case a: False
    with run have b: "\<not> length (sortedSet c) \<le> idx"
      by (auto split: if_splits)
    from run a b obtain bin where r: "ring c (sortedSet c ! idx) = Some bin"
      by (auto split: option.splits)
    from run a b r have f: "\<not> fle (fadd (float64_of_nat (length (load_list ls (Name bin)))) (Fin 1)) (MaximumLoad c)"
      by (auto simp: Let_def split: if_splits)
    with run a b r have
      "distributeWithLoad_loop c partID (if length (sortedSet c) \<le> Suc idx then 0 else Suc idx)
         (Suc cnt) ps ls = Some (Inl e)"
      by (simp add: Let_def)
    with "1.IH" [OF a b r refl refl f] show ?thesis
      by simp
  qed
qed

lemma distributePartitions_loop_Inl:
  assumes "distributePartitions_loop c partID ps ls = Some (Inl e)"
  shows "e = ErrInsufficientPartitionCapacity"
  using assms
proof (induction c partID ps ls rule: distributePartitions_loop.induct)
  case (1 c partID ps ls)
  note run = "1.prems"(1) [unfolded distributePartitions_loop.simps [of c partID ps ls]]
  from run have lt: "partID < partition c" by (auto split: if_splits)
  show ?case
  proof (cases "distributeWithLoad c partID (start_idx c partID) ps ls")
    case None
    with run lt show ?thesis by simp
  next
    case (Some r)
    show ?thesis
    proof (cases r)
      case (Inl e')
      with Some run lt have "e' = e" by simp
      with Some Inl distributeWithLoad_loop_Inl [of c partID "start_idx c partID" 0 ps ls e]
      show ?thesis by (simp add: distributeWithLoad_def)
    next
      case (Inr pl)
      obtain ps1 ls1 where pl: "pl = (ps1, ls1)" by (cases pl)
      with Some Inr have step:
        "distributeWithLoad c partID (start_idx c partID) ps ls = Some (Inr (ps1, ls1))"
        by simp
      with run lt have "distributePartitions_loop c (partID + 1) ps1 ls1 = Some (Inl e)"
        by simp
      with "1.IH" [OF lt step refl refl] show ?thesis
        by simp
    qed
  qed
qed

text \<open>The pass writes the two tables on success and nothing on failure.\<close>

lemma distributePartitions_Some:
  assumes "distributePartitions c = Some (e, c')"
  shows "(e = None \<and> (\<exists>ps ls. c' = c\<lparr>partitions := ps, loads := ls\<rparr>)) \<or>
         (e = Some ErrInsufficientPartitionCapacity \<and> c' = c)"
proof (cases "distributePartitions_loop c 0 Map.empty (fresh_loads c)")
  case None
  with assms show ?thesis by (simp add: distributePartitions_def)
next
  case (Some r)
  show ?thesis
  proof (cases r)
    case (Inl err)
    with Some distributePartitions_loop_Inl [of c 0 Map.empty "fresh_loads c" err] assms
    show ?thesis by (auto simp: distributePartitions_def)
  next
    case (Inr pl)
    with Some assms show ?thesis
      by (cases pl) (auto simp: distributePartitions_def)
  qed
qed

lemma relocate_Some: "relocate c = Some c' \<Longrightarrow> c' = c"
  by (simp add: relocate_def split: if_splits)

lemma Add_Some_None:
  assumes "Add c bin = Some (None, c')"
  shows "bins c (Name bin) = None \<and> distributePartitions (add c bin) = Some (None, c')"
proof -
  from assms have nb: "bins c (Name bin) = None"
    by (auto simp: Add_def split: if_splits)
  with assms obtain c1 where d: "distributePartitions (add c bin) = Some (None, c1)"
    and r: "relocate c1 = Some c'"
    by (auto simp: Add_def split: option.splits)
  from r have "c' = c1" by (rule relocate_Some)
  with nb d show ?thesis by simp
qed

text \<open>
  The walk returns the error before it looks at any position when the ring has fewer than two
  positions.
\<close>

lemma distributeWithLoad_short_ring:
  "length (sortedSet c) \<le> 1 \<Longrightarrow>
   distributeWithLoad c partID idx ps ls = Some (Inl ErrInsufficientPartitionCapacity)"
  by (simp add: distributeWithLoad_def distributeWithLoad_loop.simps)
subsection \<open>The ball registry under \<open>Add\<close>\<close>

text \<open>
  Claim C9. A successful \<open>Add\<close> leaves the ball registry as it was: neither \<open>add\<close> nor the
  distribution pass writes it, and \<open>relocate\<close> only fills a local map.
\<close>

theorem Add_keeps_balls:
  assumes "Add c bin = Some (None, c')"
  shows "balls c' = balls c"
proof -
  from Add_Some_None [OF assms] have "distributePartitions (add c bin) = Some (None, c')" ..
  from distributePartitions_Some [OF this] obtain ps ls
    where "c' = (add c bin)\<lparr>partitions := ps, loads := ls\<rparr>" by auto
  then show ?thesis by (simp add: add_eq)
qed

subsection \<open>The structure after a failed \<open>Add\<close>\<close>

text \<open>
  Claim C4, as the code has it. When \<open>Add\<close> returns an error, the partition table, the load
  table and the ball registry are those of before the call. With \<open>ErrBinAlreadyExist\<close> the whole
  structure is unchanged. The only other error is \<open>ErrInsufficientPartitionCapacity\<close>; then
  the ring, the sorted positions and the bin registry are as \<open>add\<close> wrote them, with the new
  bin in them.
\<close>

theorem Add_error_state:
  assumes "Add c bin = Some (Some e, c')"
  shows "(e = ErrBinAlreadyExist \<and> c' = c \<or>
          e = ErrInsufficientPartitionCapacity \<and> c' = add c bin) \<and>
         partitions c' = partitions c \<and> loads c' = loads c \<and> balls c' = balls c"
proof (cases "bins c (Name bin) = None")
  case False
  with assms show ?thesis by (auto simp: Add_def)
next
  case True
  with assms obtain c1 where d: "distributePartitions (add c bin) = Some (Some e, c1)" and "c' = c1"
    by (auto simp: Add_def split: option.splits)
  from distributePartitions_Some [OF d] \<open>c' = c1\<close>
  have "e = ErrInsufficientPartitionCapacity" "c' = add c bin" by auto
  then show ?thesis by (simp add: add_eq)
qed

subsection \<open>\<open>Remove\<close> of the last bin\<close>

lemma fold_Remove_step:
  "fold (Remove_step bin) ns c =
     c\<lparr>ring := fold (\<lambda>h m. m(h := None)) (map (\<lambda>i. hasher c (Name bin @ decimal i)) ns) (ring c),
       sortedSet := fold remove1 (map (\<lambda>i. hasher c (Name bin @ decimal i)) ns) (sortedSet c)\<rparr>"
  by (induction ns arbitrary: c) (simp_all add: Remove_step_def delSlice_def Let_def)

text \<open>
  Claim C7, as the code has it. \<open>Remove\<close> of the only tracked bin returns nil and leaves the
  bin registry and the partition table empty; the load table is not reset, it stays as it was.
\<close>

theorem Remove_last_bin:
  assumes "dom (bins c) = {Name bin}"
  shows "\<exists>c'. Remove c bin = Some (None, c') \<and> bins c' = Map.empty \<and>
           partitions c' = Map.empty \<and> loads c' = loads c"
proof -
  from assms obtain b where b: "bins c (Name bin) = Some b" by auto
  have e: "card (dom (bins c) - {Name bin}) = 0" by (simp add: assms)
  have "(bins c)(Name bin := None) = Map.empty"
    using assms by (auto simp: fun_eq_iff domIff)
  with b e show ?thesis
    by (simp add: Remove_def fold_Remove_step Let_def)
qed

subsection \<open>\<open>New\<close> on a nil and on an empty list of bins\<close>

text \<open>
  Claim C10. \<open>New\<close> with a nil list of bins returns the empty structure. With a list that is
  empty but not nil it runs the distribution pass over no bin, and the pass fails with
  \<open>ErrInsufficientPartitionCapacity\<close> as soon as the partition count is positive
  (a Go \<open>int\<close> of 64 bits).
\<close>

theorem New_nil_and_empty:
  "New cfg None =
     Some (Inr \<lparr>hasher = Hasher cfg, partition = word_of_int (Partition cfg),
                replicationFactor = ReplicationFactor cfg,
                loadBalancingParameter = LoadBalancingParameter cfg,
                loads = Map.empty, bins = Map.empty, balls = Map.empty,
                partitions = Map.empty, ring = Map.empty, sortedSet = []\<rparr>) \<and>
   (0 < Partition cfg \<and> Partition cfg < 2 ^ 63 \<longrightarrow>
      New cfg (Some []) = Some (Inl ErrInsufficientPartitionCapacity))"
proof -
  have "New cfg (Some []) = Some (Inl ErrInsufficientPartitionCapacity)"
    if "0 < Partition cfg" "Partition cfg < 2 ^ 63"
  proof -
    from that have "(word_of_int (Partition cfg) :: uint64) \<noteq> 0"
      by (simp add: word_of_int_eq_0_iff zdvd_not_zless)
    then have "0 < (word_of_int (Partition cfg) :: uint64)"
      by (simp add: word_greater_zero_iff)
    then show ?thesis
      by (simp add: New_def distributePartitions_def distributePartitions_loop.simps
          distributeWithLoad_def distributeWithLoad_loop.simps)
  qed
  then show ?thesis
    by (simp add: New_def)
qed
subsection \<open>The order of insertion\<close>

lemma same_ring_distributeWithLoad_loop:
  assumes "same_ring c d"
  shows "distributeWithLoad_loop c partID idx cnt ps ls =
         distributeWithLoad_loop d partID idx cnt ps ls"
  using assms
proof (induction c partID idx cnt ps ls rule: distributeWithLoad_loop.induct)
  case (1 c partID idx cnt ps ls)
  note sr = "1.prems"
  then have s: "sortedSet d = sortedSet c" and r: "ring d = ring c"
    and m: "MaximumLoad d = MaximumLoad c"
    by (simp_all add: same_ring_def MaximumLoad_def)
  show ?case
  proof (cases "length (sortedSet c) \<le> Suc cnt")
    case True
    then show ?thesis
      by (simp add: distributeWithLoad_loop.simps [of c] distributeWithLoad_loop.simps [of d] s)
  next
    case a: False
    show ?thesis
    proof (cases "length (sortedSet c) \<le> idx")
      case True
      with a show ?thesis
        by (simp add: distributeWithLoad_loop.simps [of c] distributeWithLoad_loop.simps [of d] s)
    next
      case b: False
      show ?thesis
      proof (cases "ring c (sortedSet c ! idx)")
        case None
        with a b show ?thesis
          by (simp add: distributeWithLoad_loop.simps [of c] distributeWithLoad_loop.simps [of d] s r)
      next
        case (Some bin)
        show ?thesis
        proof (cases "fle (fadd (float64_of_nat (length (load_list ls (Name bin)))) (Fin 1)) (MaximumLoad c)")
          case True
          with a b Some show ?thesis
            by (simp add: distributeWithLoad_loop.simps [of c partID idx cnt]
                distributeWithLoad_loop.simps [of d partID idx cnt] s r m Let_def)
        next
          case False
          from "1.IH" [OF a b Some refl refl False sr] a b Some False show ?thesis
            by (simp add: distributeWithLoad_loop.simps [of c partID idx cnt]
                distributeWithLoad_loop.simps [of d partID idx cnt] s r m Let_def)
        qed
      qed
    qed
  qed
qed

lemma same_ring_start_idx: "same_ring c d \<Longrightarrow> start_idx c p = start_idx d p"
  by (simp add: same_ring_def start_idx_def)

lemma same_ring_distributePartitions_loop:
  assumes "same_ring c d"
  shows "distributePartitions_loop c partID ps ls = distributePartitions_loop d partID ps ls"
  using assms
proof (induction c partID ps ls rule: distributePartitions_loop.induct)
  case (1 c partID ps ls)
  note sr = "1.prems"
  then have p: "partition d = partition c" by (simp add: same_ring_def)
  have w: "distributeWithLoad d partID (start_idx d partID) ps ls =
           distributeWithLoad c partID (start_idx c partID) ps ls"
    using same_ring_distributeWithLoad_loop [OF sr] same_ring_start_idx [OF sr]
    by (simp add: distributeWithLoad_def)
  show ?case
  proof (cases "partID < partition c")
    case False
    then show ?thesis
      by (simp add: distributePartitions_loop.simps [of c] distributePartitions_loop.simps [of d] p)
  next
    case True
    show ?thesis
    proof (cases "distributeWithLoad c partID (start_idx c partID) ps ls")
      case None
      with True show ?thesis
        by (simp add: distributePartitions_loop.simps [of c partID]
            distributePartitions_loop.simps [of d partID] p w)
    next
      case (Some res)
      show ?thesis
      proof (cases res)
        case (Inl e)
        with Some True show ?thesis
          by (simp add: distributePartitions_loop.simps [of c partID]
              distributePartitions_loop.simps [of d partID] p w)
      next
        case (Inr pl)
        obtain ps1 ls1 where pl: "pl = (ps1, ls1)" by (cases pl)
        from Some Inr pl have step:
          "distributeWithLoad c partID (start_idx c partID) ps ls = Some (Inr (ps1, ls1))"
          by simp
        from "1.IH" [OF True step refl refl sr] True step show ?thesis
          by (simp add: distributePartitions_loop.simps [of c partID]
              distributePartitions_loop.simps [of d partID] p w)
      qed
    qed
  qed
qed

lemma same_ring_tables: "same_ring c d \<Longrightarrow> tables c = tables d"
  using same_ring_distributePartitions_loop [of c d]
  by (simp add: tables_def fresh_loads_def same_ring_def)

lemma same_ring_refl: "same_ring c c"
  by (simp add: same_ring_def)

lemma same_ring_sym: "same_ring c d \<Longrightarrow> same_ring d c"
  by (simp add: same_ring_def)

lemma same_ring_trans: "same_ring c d \<Longrightarrow> same_ring d e \<Longrightarrow> same_ring c e"
  by (simp add: same_ring_def)

lemma same_ring_add: "same_ring c d \<Longrightarrow> same_ring (add c b) (add d b)"
  by (simp add: same_ring_def add_eq ring_hashes_def)

lemma same_ring_adds:
  "same_ring c d \<Longrightarrow> same_ring (fold (\<lambda>b c. add c b) xs c) (fold (\<lambda>b c. add c b) xs d)"
  by (induction xs arbitrary: c d) (simp_all add: same_ring_add)

lemma distributePartitions_tables:
  assumes "distributePartitions c = Some (None, c')"
  shows "tables c = Some (Inr (partitions c', loads c')) \<and> same_ring c' c"
  using assms
  by (auto simp: distributePartitions_def tables_def same_ring_def split: option.splits sum.splits)

lemma Add_all_adds:
  assumes "Add_all c xs = Some c1"
  shows "same_ring c1 (fold (\<lambda>b c. add c b) xs c) \<and>
         (xs \<noteq> [] \<longrightarrow> tables (fold (\<lambda>b c. add c b) xs c) = Some (Inr (partitions c1, loads c1))) \<and>
         distinct (map Name xs) \<and> (\<forall>b \<in> set xs. bins c (Name b) = None)"
  using assms
proof (induction xs arbitrary: c)
  case Nil
  then show ?case by (simp add: same_ring_refl)
next
  case (Cons b rest)
  from Cons.prems obtain c' where A: "Add c b = Some (None, c')" and R: "Add_all c' rest = Some c1"
    by (auto split: option.splits prod.splits)
  from Add_Some_None [OF A] have nb: "bins c (Name b) = None"
    and d: "distributePartitions (add c b) = Some (None, c')" by simp_all
  from distributePartitions_tables [OF d] have t: "tables (add c b) = Some (Inr (partitions c', loads c'))"
    and sr: "same_ring c' (add c b)" by simp_all
  from Cons.IH [OF R] have i1: "same_ring c1 (fold (\<lambda>b c. add c b) rest c')"
    and i2: "rest \<noteq> [] \<Longrightarrow> tables (fold (\<lambda>b c. add c b) rest c') = Some (Inr (partitions c1, loads c1))"
    and i3: "distinct (map Name rest)" and i4: "\<forall>b' \<in> set rest. bins c' (Name b') = None"
    by simp_all
  note sra = same_ring_adds [OF sr, of rest]
  have 1: "same_ring c1 (fold (\<lambda>b c. add c b) (b # rest) c)"
    using same_ring_trans [OF i1 sra] by simp
  have 2: "tables (fold (\<lambda>b c. add c b) (b # rest) c) = Some (Inr (partitions c1, loads c1))"
  proof (cases "rest = []")
    case True
    with R t show ?thesis by simp
  next
    case False
    from i2 [OF False] same_ring_tables [OF sra] show ?thesis by simp
  qed
  from sr have bc': "bins c' = (bins c)(Name b \<mapsto> b)"
    by (simp add: same_ring_def add_eq)
  have 3: "distinct (map Name (b # rest))"
    using i3 i4 bc' by (auto split: if_splits)
  have 4: "\<forall>b' \<in> set (b # rest). bins c (Name b') = None"
    using nb i4 bc' by (auto split: if_splits)
  from 1 2 3 4 show ?case by blast
qed

lemma add_add_at: "add c b = add_at (hasher c) (replicationFactor c) b c"
  by (simp add: add_eq add_at_def ring_hashes_def Let_def)

lemma adds_add_at:
  "fold (\<lambda>b c. add c b) xs c = fold (add_at (hasher c) (replicationFactor c)) xs c"
proof (induction xs arbitrary: c)
  case Nil
  show ?case by simp
next
  case (Cons b xs)
  have "hasher (add c b) = hasher c" "replicationFactor (add c b) = replicationFactor c"
    by (simp_all add: add_eq)
  with Cons [of "add c b"] show ?case
    by (simp add: add_add_at [symmetric])
qed

lemma fold_upd_apply:
  "fold (\<lambda>k m. m(k \<mapsto> b)) hs m x = (if x \<in> set hs then Some b else m x)"
  by (induction hs arbitrary: m) auto

lemma add_at_commute:
  fixes b b' :: Bin
  assumes "Name b \<noteq> Name b'"
    and "set (map (\<lambda>i. h (decimal i @ Name b)) [0..<nat r]) \<inter>
         set (map (\<lambda>i. h (decimal i @ Name b')) [0..<nat r]) = {}"
  shows "add_at h r b \<circ> add_at h r b' = add_at h r b' \<circ> add_at h r b"
proof
  fix c :: Consistent
  let ?hs = "map (\<lambda>i. h (decimal i @ Name b)) [0..<nat r]"
  let ?hs' = "map (\<lambda>i. h (decimal i @ Name b')) [0..<nat r]"
  have ring: "fold (\<lambda>k m. m(k \<mapsto> b)) ?hs (fold (\<lambda>k m. m(k \<mapsto> b')) ?hs' (ring c)) =
              fold (\<lambda>k m. m(k \<mapsto> b')) ?hs' (fold (\<lambda>k m. m(k \<mapsto> b)) ?hs (ring c))"
    using assms(2) by (auto simp: fun_eq_iff fold_upd_apply)
  have sorted: "sort (sort (sortedSet c @ ?hs') @ ?hs) = sort (sort (sortedSet c @ ?hs) @ ?hs')"
    by (rule properties_for_sort) (simp_all add: ac_simps)
  have bins: "(bins c)(Name b' \<mapsto> b', Name b \<mapsto> b) = (bins c)(Name b \<mapsto> b, Name b' \<mapsto> b')"
    using assms(1) by (simp add: fun_upd_twist)
  show "(add_at h r b \<circ> add_at h r b') c = (add_at h r b' \<circ> add_at h r b) c"
    using ring sorted bins by (simp add: add_at_def Let_def)
qed

text \<open>
  Claim C8, as the code has it. Two sequences of successful \<open>Add\<close> calls on the same
  structure that insert the same set of bins, in any order, end with the same partition table
  and the same load table, provided no two different bins of the set share a ring position.
  (Where two bins share a position, the ring keeps the bin added last.)
\<close>

theorem Add_order_independent:
  assumes xs: "Add_all c0 xs = Some c1" and ys: "Add_all c0 ys = Some c2"
    and set: "set xs = set ys"
    and nc: "\<forall>b \<in> set xs. \<forall>b' \<in> set xs. b \<noteq> b' \<longrightarrow>
               set (ring_hashes c0 b) \<inter> set (ring_hashes c0 b') = {}"
  shows "partitions c1 = partitions c2 \<and> loads c1 = loads c2"
proof (cases "xs = []")
  case True
  with set have "ys = []" by simp
  with True xs ys show ?thesis by simp
next
  case False
  with set have ne: "ys \<noteq> []" by auto
  note X = Add_all_adds [OF xs] and Y = Add_all_adds [OF ys]
  from X have dx: "distinct (map Name xs)" by simp
  from Y have dy: "distinct (map Name ys)" by simp
  from dx have "distinct xs" by (rule distinct_map [THEN iffD1, THEN conjunct1])
  moreover from dy have "distinct ys" by (rule distinct_map [THEN iffD1, THEN conjunct1])
  ultimately have m: "mset xs = mset ys"
    using set by (simp add: set_eq_iff_mset_eq_distinct)
  let ?f = "add_at (hasher c0) (replicationFactor c0)"
  have comm: "?f x \<circ> ?f y = ?f y \<circ> ?f x" if "x \<in> set xs" "y \<in> set xs" for x y
  proof (cases "x = y")
    case True
    then show ?thesis by simp
  next
    case False
    from dx have "inj_on Name (set xs)" by (simp add: distinct_map)
    with that False have "Name x \<noteq> Name y" by (auto dest: inj_onD)
    moreover from nc that False
    have "set (ring_hashes c0 x) \<inter> set (ring_hashes c0 y) = {}" by blast
    ultimately show ?thesis
      by (intro add_at_commute) (simp_all add: ring_hashes_def)
  qed
  have "fold ?f xs = fold ?f ys"
    by (rule fold_multiset_equiv [OF comm m])
  then have "fold (\<lambda>b c. add c b) xs c0 = fold (\<lambda>b c. add c b) ys c0"
    by (simp add: adds_add_at)
  with X Y False ne show ?thesis by simp
qed
section \<open>Evaluation on the concrete states\<close>

lemma decimal_0: "decimal 0 = ''0''" by code_simp
lemma decimal_1: "decimal (Suc 0) = ''1''" by code_simp
lemma upt_2: "[0..<2] = [0, Suc 0]" by (simp add: upt_conv_Cons_Cons numeral_2_eq_2)

lemma fnv64_0a: "fnv64 ''0a'' = 590701660006484860" by code_simp
lemma fnv64_1a: "fnv64 ''1a'' = 590700560494856459" by code_simp
lemma fnv64_0b: "fnv64 ''0b'' = 590701660006484863" by code_simp
lemma fnv64_1b: "fnv64 ''1b'' = 590700560494856456" by code_simp
lemma fnv64_a0: "fnv64 ''a0'' = 590647783936702442" by code_simp
lemma fnv64_a1: "fnv64 ''a1'' = 590647783936702443" by code_simp
lemma fnv64_part0: "fnv64 (PutUint64 0) = 12161962213042174405" by code_simp
lemma fnv64_part1: "fnv64 (PutUint64 1) = 16390143479181108970" by code_simp

lemma ring_hashes_a:
  "hasher c = fnv64 \<Longrightarrow> replicationFactor c = 2 \<Longrightarrow>
   ring_hashes c (NewBin ''a'') = [590701660006484860, 590700560494856459]"
  by (simp add: ring_hashes_def upt_2 NewBin_def decimal_0 decimal_1 fnv64_0a fnv64_1a)

lemma ring_hashes_b:
  "hasher c = fnv64 \<Longrightarrow> replicationFactor c = 2 \<Longrightarrow>
   ring_hashes c (NewBin ''b'') = [590701660006484863, 590700560494856456]"
  by (simp add: ring_hashes_def upt_2 NewBin_def decimal_0 decimal_1 fnv64_0b fnv64_1b)

lemma New_cfgF: "New cfgF None = Some (Inr cF0)"
  by (simp add: New_def cfgF_def cF0_def)


text \<open>The pass on the ring of the single bin \<open>a\<close>.\<close>

lemma dist_a:
  assumes c: "hasher c = fnv64" "partition c = 2" "loadBalancingParameter c = Fin 1"
    "bins c = [''a'' \<mapsto> NewBin ''a'']"
    "ring c = [590701660006484860 \<mapsto> NewBin ''a'', 590700560494856459 \<mapsto> NewBin ''a'']"
    "sortedSet c = [590700560494856459, 590701660006484860]"
  shows "distributePartitions c = Some (None, c\<lparr>partitions := [0 \<mapsto> NewBin ''a'', 1 \<mapsto> NewBin ''a''],
            loads := [''a'' \<mapsto> [0, 1]]\<rparr>)"
proof -
  have ml: "MaximumLoad c = Fin 2"
    by (simp add: MaximumLoad_def c round64_eval ceiling_half)
  have fl: "fresh_loads c = [''a'' \<mapsto> []]"
    by (auto simp add: fresh_loads_def c NewBin_def)
  have si0: "start_idx c 0 = 0"
    by (simp add: start_idx_def c fnv64_part0 Search_def Search_loop.simps Let_def)
  have si1: "start_idx c 1 = 0"
    by (simp add: start_idx_def c fnv64_part1 Search_def Search_loop.simps Let_def)
  have dw0: "distributeWithLoad c 0 0 Map.empty [''a'' \<mapsto> []] = Some (Inr ([0 \<mapsto> NewBin ''a''], [''a'' \<mapsto> [0]]))"
    by (simp add: distributeWithLoad_def distributeWithLoad_loop.simps ml c NewBin_def load_list_def
        fadd_one_exact)
  have dw1: "distributeWithLoad c 1 0 [0 \<mapsto> NewBin ''a''] [''a'' \<mapsto> [0]] = Some (Inr ([0 \<mapsto> NewBin ''a'', 1 \<mapsto> NewBin ''a''], [''a'' \<mapsto> [0, 1]]))"
    by (simp add: distributeWithLoad_def distributeWithLoad_loop.simps ml c NewBin_def load_list_def
        fadd_one_exact)
  have l2: "distributePartitions_loop c 2 ps ls = Some (Inr (ps, ls))" for ps ls
    by (subst distributePartitions_loop.simps) (simp add: c)
  have l1: "distributePartitions_loop c 1 [0 \<mapsto> NewBin ''a''] [''a'' \<mapsto> [0]] = Some (Inr ([0 \<mapsto> NewBin ''a'', 1 \<mapsto> NewBin ''a''], [''a'' \<mapsto> [0, 1]]))"
    by (subst distributePartitions_loop.simps) (simp add: c si1 dw1 l2)
  have l0: "distributePartitions_loop c 0 Map.empty [''a'' \<mapsto> []] = Some (Inr ([0 \<mapsto> NewBin ''a'', 1 \<mapsto> NewBin ''a''], [''a'' \<mapsto> [0, 1]]))"
    by (subst distributePartitions_loop.simps) (simp add: c si0 dw0 l1)
  show ?thesis
    by (simp add: distributePartitions_def fl l0)
qed

lemma add_cF0_a: "add cF0 (NewBin ''a'') = cFa\<lparr>partitions := Map.empty, loads := Map.empty\<rparr>"
  by (simp add: add_eq ring_hashes_a cF0_def cFa_def) (simp add: NewBin_def)

lemma distributePartitions_cFa:
  "distributePartitions (add cF0 (NewBin ''a'')) = Some (None, cFa)"
  unfolding add_cF0_a by (subst dist_a) (simp_all add: cFa_def)

text \<open>The pass on the ring of the single bin \<open>b\<close>.\<close>

lemma dist_b:
  assumes c: "hasher c = fnv64" "partition c = 2" "loadBalancingParameter c = Fin 1"
    "bins c = [''b'' \<mapsto> NewBin ''b'']"
    "ring c = [590701660006484863 \<mapsto> NewBin ''b'', 590700560494856456 \<mapsto> NewBin ''b'']"
    "sortedSet c = [590700560494856456, 590701660006484863]"
  shows "distributePartitions c = Some (None, c\<lparr>partitions := [0 \<mapsto> NewBin ''b'', 1 \<mapsto> NewBin ''b''],
            loads := [''b'' \<mapsto> [0, 1]]\<rparr>)"
proof -
  have ml: "MaximumLoad c = Fin 2"
    by (simp add: MaximumLoad_def c round64_eval ceiling_half)
  have fl: "fresh_loads c = [''b'' \<mapsto> []]"
    by (auto simp add: fresh_loads_def c NewBin_def)
  have si0: "start_idx c 0 = 0"
    by (simp add: start_idx_def c fnv64_part0 Search_def Search_loop.simps Let_def)
  have si1: "start_idx c 1 = 0"
    by (simp add: start_idx_def c fnv64_part1 Search_def Search_loop.simps Let_def)
  have dw0: "distributeWithLoad c 0 0 Map.empty [''b'' \<mapsto> []] = Some (Inr ([0 \<mapsto> NewBin ''b''], [''b'' \<mapsto> [0]]))"
    by (simp add: distributeWithLoad_def distributeWithLoad_loop.simps ml c NewBin_def load_list_def
        fadd_one_exact)
  have dw1: "distributeWithLoad c 1 0 [0 \<mapsto> NewBin ''b''] [''b'' \<mapsto> [0]] = Some (Inr ([0 \<mapsto> NewBin ''b'', 1 \<mapsto> NewBin ''b''], [''b'' \<mapsto> [0, 1]]))"
    by (simp add: distributeWithLoad_def distributeWithLoad_loop.simps ml c NewBin_def load_list_def
        fadd_one_exact)
  have l2: "distributePartitions_loop c 2 ps ls = Some (Inr (ps, ls))" for ps ls
    by (subst distributePartitions_loop.simps) (simp add: c)
  have l1: "distributePartitions_loop c 1 [0 \<mapsto> NewBin ''b''] [''b'' \<mapsto> [0]] = Some (Inr ([0 \<mapsto> NewBin ''b'', 1 \<mapsto> NewBin ''b''], [''b'' \<mapsto> [0, 1]]))"
    by (subst distributePartitions_loop.simps) (simp add: c si1 dw1 l2)
  have l0: "distributePartitions_loop c 0 Map.empty [''b'' \<mapsto> []] = Some (Inr ([0 \<mapsto> NewBin ''b'', 1 \<mapsto> NewBin ''b''], [''b'' \<mapsto> [0, 1]]))"
    by (subst distributePartitions_loop.simps) (simp add: c si0 dw0 l1)
  show ?thesis
    by (simp add: distributePartitions_def fl l0)
qed

text \<open>The pass on the ring of the two bins \<open>a\<close> and \<open>b\<close>.\<close>

lemma dist_ab:
  assumes c: "hasher c = fnv64" "partition c = 2" "loadBalancingParameter c = Fin 1"
    "bins c = [''a'' \<mapsto> NewBin ''a'', ''b'' \<mapsto> NewBin ''b'']"
    "ring c = [590701660006484860 \<mapsto> NewBin ''a'', 590700560494856459 \<mapsto> NewBin ''a'',
               590701660006484863 \<mapsto> NewBin ''b'', 590700560494856456 \<mapsto> NewBin ''b'']"
    "sortedSet c = [590700560494856456, 590700560494856459,
                    590701660006484860, 590701660006484863]"
  shows "distributePartitions c = Some (None, c\<lparr>partitions := [0 \<mapsto> NewBin ''b'', 1 \<mapsto> NewBin ''a''],
            loads := [''a'' \<mapsto> [1], ''b'' \<mapsto> [0]]\<rparr>)"
proof -
  have ml: "MaximumLoad c = Fin 1"
    by (simp add: MaximumLoad_def c round64_eval ceiling_half)
  have fl: "fresh_loads c = [''a'' \<mapsto> [], ''b'' \<mapsto> []]"
    by (auto simp add: fresh_loads_def c NewBin_def)
  have si0: "start_idx c 0 = 0"
    by (simp add: start_idx_def c fnv64_part0 Search_def Search_loop.simps Let_def)
  have si1: "start_idx c 1 = 0"
    by (simp add: start_idx_def c fnv64_part1 Search_def Search_loop.simps Let_def)
  have dw0: "distributeWithLoad c 0 0 Map.empty [''a'' \<mapsto> [], ''b'' \<mapsto> []] =
      Some (Inr ([0 \<mapsto> NewBin ''b''], [''a'' \<mapsto> [], ''b'' \<mapsto> [0]]))"
    by (simp add: distributeWithLoad_def distributeWithLoad_loop.simps ml c NewBin_def load_list_def
        fadd_one_exact)
  have dw1: "distributeWithLoad c 1 0 [0 \<mapsto> NewBin ''b''] [''a'' \<mapsto> [], ''b'' \<mapsto> [0]] =
      Some (Inr ([0 \<mapsto> NewBin ''b'', 1 \<mapsto> NewBin ''a''], [''a'' \<mapsto> [1], ''b'' \<mapsto> [0]]))"
    by (simp add: distributeWithLoad_def distributeWithLoad_loop.simps ml c NewBin_def load_list_def
        fadd_one_exact)
      (auto simp: fun_eq_iff)
  have l2: "distributePartitions_loop c 2 ps ls = Some (Inr (ps, ls))" for ps ls
    by (subst distributePartitions_loop.simps) (simp add: c)
  have l1: "distributePartitions_loop c 1 [0 \<mapsto> NewBin ''b''] [''a'' \<mapsto> [], ''b'' \<mapsto> [0]] =
      Some (Inr ([0 \<mapsto> NewBin ''b'', 1 \<mapsto> NewBin ''a''], [''a'' \<mapsto> [1], ''b'' \<mapsto> [0]]))"
    by (subst distributePartitions_loop.simps) (simp add: c si1 dw1 l2)
  have l0: "distributePartitions_loop c 0 Map.empty [''a'' \<mapsto> [], ''b'' \<mapsto> []] =
      Some (Inr ([0 \<mapsto> NewBin ''b'', 1 \<mapsto> NewBin ''a''], [''a'' \<mapsto> [1], ''b'' \<mapsto> [0]]))"
    by (subst distributePartitions_loop.simps) (simp add: c si0 dw0 l1)
  show ?thesis
    by (simp add: distributePartitions_def fl l0)
qed

lemma Add_cF0_a: "Add cF0 (NewBin ''a'') = Some (None, cFa)"
proof -
  have 0: "bins cF0 (Name (NewBin ''a'')) = None" by (simp add: cF0_def)
  have 3: "relocate cFa = Some cFa" by (simp add: relocate_def cFa_def)
  show ?thesis
    by (simp add: Add_def 0 distributePartitions_cFa 3)
qed

lemma Add_cF0_b: "Add cF0 (NewBin ''b'') = Some (None, cFb)"
proof -
  have 1: "add cF0 (NewBin ''b'') = cFb\<lparr>partitions := Map.empty, loads := Map.empty\<rparr>"
    by (simp add: add_eq ring_hashes_b cF0_def cFb_def) (simp add: NewBin_def)
  have 2: "distributePartitions (cFb\<lparr>partitions := Map.empty, loads := Map.empty\<rparr>) = Some (None, cFb)"
    by (subst dist_b) (simp_all add: cFb_def)
  have 0: "bins cF0 (Name (NewBin ''b'')) = None" by (simp add: cF0_def NewBin_def)
  have 3: "relocate cFb = Some cFb" by (simp add: relocate_def cFb_def)
  show ?thesis
    by (simp add: Add_def 0 1 2 3)
qed

lemma Add_cFa_b: "Add cFa (NewBin ''b'') = Some (None, cFab)"
proof -
  have 1: "add cFa (NewBin ''b'') = cFab\<lparr>partitions := partitions cFa, loads := loads cFa\<rparr>"
    by (simp add: add_eq ring_hashes_b cFa_def cFab_def) (simp add: NewBin_def)
  have 2: "distributePartitions (cFab\<lparr>partitions := partitions cFa, loads := loads cFa\<rparr>) = Some (None, cFab)"
    by (subst dist_ab) (simp_all add: cFab_def)
  have 0: "bins cFa (Name (NewBin ''b'')) = None" by (simp add: cFa_def NewBin_def)
  have 3: "relocate cFab = Some cFab" by (simp add: relocate_def cFab_def)
  show ?thesis
    by (simp add: Add_def 0 1 2 3)
qed

lemma Add_cFb_a: "Add cFb (NewBin ''a'') = Some (None, cFba)"
proof -
  have 1: "add cFb (NewBin ''a'') = cFba\<lparr>partitions := partitions cFb, loads := loads cFb\<rparr>"
    by (simp add: add_eq ring_hashes_a cFb_def cFba_def) (simp add: NewBin_def)
  have 2: "distributePartitions (cFba\<lparr>partitions := partitions cFb, loads := loads cFb\<rparr>) = Some (None, cFba)"
    by (subst dist_ab) (auto simp add: cFba_def fun_eq_iff)
  have 0: "bins cFb (Name (NewBin ''a'')) = None" by (simp add: cFb_def NewBin_def)
  have 3: "relocate cFba = Some cFba" by (simp add: relocate_def cFba_def)
  show ?thesis
    by (simp add: Add_def 0 1 2 3)
qed

lemma Remove_cFa: "Remove cFa (NewBin ''a'') = Some (None, cFr)"
proof -
  have 0: "bins cFa (Name (NewBin ''a'')) = Some (NewBin ''a'')"
    by (simp add: cFa_def NewBin_def)
  have 1: "fold (Remove_step (NewBin ''a'')) [0..<nat (replicationFactor cFa)] cFa = cFa"
    by (simp add: Remove_step_def delSlice_def Let_def cFa_def upt_2 NewBin_def
        decimal_0 decimal_1 fnv64_a0 fnv64_a1)
  have 2: "card (dom ((bins cFa)(Name (NewBin ''a'') := None))) = 0"
    by (simp add: cFa_def NewBin_def)
  have 3: "cFa\<lparr>bins := (bins cFa)(Name (NewBin ''a'') := None), partitions := Map.empty\<rparr> = cFr"
    by (simp add: cFa_def cFr_def NewBin_def)
  show ?thesis
    unfolding Remove_def Let_def 1 using 0 2 3 by simp
qed

lemma ring_hashes_cF0_a:
  "ring_hashes cF0 (NewBin ''a'') = [590701660006484860, 590700560494856459]"
  by (rule ring_hashes_a) (simp_all add: cF0_def)

lemma ring_hashes_cF0_b:
  "ring_hashes cF0 (NewBin ''b'') = [590701660006484863, 590700560494856456]"
  by (rule ring_hashes_b) (simp_all add: cF0_def)

lemma distributePartitions_cFab:
  "distributePartitions (add cFa (NewBin ''b'')) = Some (None, cFab)"
  using Add_Some_None [OF Add_cFa_b] by simp

lemma Add_with_balls:
  "Add (cF0\<lparr>balls := bl\<rparr>) (NewBin ''a'') = Some (None, cFa\<lparr>balls := bl\<rparr>)"
proof -
  have 0: "bins cF0 (Name (NewBin ''a'')) = None" by (simp add: cF0_def)
  have 1: "add (cF0\<lparr>balls := bl\<rparr>) (NewBin ''a'') =
           cFa\<lparr>balls := bl, partitions := Map.empty, loads := Map.empty\<rparr>"
    by (simp add: add_eq ring_hashes_a cF0_def cFa_def) (simp add: NewBin_def)
  have 2: "distributePartitions (cFa\<lparr>balls := bl, partitions := Map.empty, loads := Map.empty\<rparr>) =
           Some (None, cFa\<lparr>balls := bl\<rparr>)"
    by (subst dist_a) (simp_all add: cFa_def)
  have 3: "relocate (cFa\<lparr>balls := bl\<rparr>) = Some (cFa\<lparr>balls := bl\<rparr>)"
    by (simp add: relocate_def FindPartitionID_def cFa_def)
  show ?thesis
    by (simp add: Add_def 0 1 2 3)
qed

lemma add_cH0_a: "add cH0 (NewBin ''a'') = cH1"
  by (simp add: add_eq ring_hashes_a cH0_def cH1_def) (simp add: NewBin_def)

lemma distributePartitions_cH1:
  "distributePartitions cH1 = Some (Some ErrInsufficientPartitionCapacity, cH1)"
proof -
  have c: "hasher cH1 = fnv64" "partition cH1 = 2" "loadBalancingParameter cH1 = Fin (1 / 2)"
    "bins cH1 = [''a'' \<mapsto> NewBin ''a'']"
    "ring cH1 = [590701660006484860 \<mapsto> NewBin ''a'', 590700560494856459 \<mapsto> NewBin ''a'']"
    "sortedSet cH1 = [590700560494856459, 590701660006484860]"
    by (simp_all add: cH1_def)
  have ml: "MaximumLoad cH1 = Fin 1"
    by (simp add: MaximumLoad_def c round64_eval ceiling_half)
  have fl: "fresh_loads cH1 = [''a'' \<mapsto> []]"
    by (auto simp add: fresh_loads_def c NewBin_def)
  have si0: "start_idx cH1 0 = 0"
    by (simp add: start_idx_def c fnv64_part0 Search_def Search_loop.simps Let_def)
  have si1: "start_idx cH1 1 = 0"
    by (simp add: start_idx_def c fnv64_part1 Search_def Search_loop.simps Let_def)
  have dw0: "distributeWithLoad cH1 0 0 Map.empty [''a'' \<mapsto> []] =
      Some (Inr ([0 \<mapsto> NewBin ''a''], [''a'' \<mapsto> [0]]))"
    by (simp add: distributeWithLoad_def distributeWithLoad_loop.simps ml c NewBin_def load_list_def
        fadd_one_exact)
  have dw1: "distributeWithLoad cH1 1 0 [0 \<mapsto> NewBin ''a''] [''a'' \<mapsto> [0]] =
      Some (Inl ErrInsufficientPartitionCapacity)"
    by (simp add: distributeWithLoad_def distributeWithLoad_loop.simps ml c NewBin_def load_list_def
        fadd_one_exact)
  have l1: "distributePartitions_loop cH1 1 [0 \<mapsto> NewBin ''a''] [''a'' \<mapsto> [0]] =
      Some (Inl ErrInsufficientPartitionCapacity)"
    by (subst distributePartitions_loop.simps) (simp add: c si1 dw1)
  have l0: "distributePartitions_loop cH1 0 Map.empty [''a'' \<mapsto> []] =
      Some (Inl ErrInsufficientPartitionCapacity)"
    by (subst distributePartitions_loop.simps) (simp add: c si0 dw0 l1)
  show ?thesis
    by (simp add: distributePartitions_def fl l0)
qed

lemma Add_cH0_a: "Add cH0 (NewBin ''a'') = Some (Some ErrInsufficientPartitionCapacity, cH1)"
proof -
  have 0: "bins cH0 (Name (NewBin ''a'')) = None" by (simp add: cH0_def)
  show ?thesis
    by (simp add: Add_def 0 add_cH0_a distributePartitions_cH1)
qed

lemma ring_hashes_c30: "ring_hashes c30 (NewBin ''a'') = [590701660006484860]"
  by (simp add: ring_hashes_def c30_def NewBin_def decimal_0 fnv64_0a)

lemma add_c30_a: "add c30 (NewBin ''a'') = c31"
  by (simp add: add_eq ring_hashes_c30) (simp add: c30_def c31_def NewBin_def)

lemma ring_hashes_len:
  "hasher c = len_hasher \<Longrightarrow> replicationFactor c = 2 \<Longrightarrow> length (Name bin) = 1 \<Longrightarrow>
   ring_hashes c bin = [2, 2]"
  by (simp add: ring_hashes_def upt_2 decimal_0 decimal_1 len_hasher_def)

lemma len_hasher_part: "len_hasher (PutUint64 p) = 8"
  by (simp add: len_hasher_def PutUint64_def)

text \<open>The pass when every ring position is 2 and the ring holds the bin \<open>y\<close> there.\<close>

lemma dist_len_1:
  fixes y :: Bin
  assumes c: "hasher c = len_hasher" "partition c = 1" "loadBalancingParameter c = Fin 1"
    "bins c = [Name y \<mapsto> y]" "ring c = [2 \<mapsto> y]" "sortedSet c = [2, 2]"
  shows "distributePartitions c =
           Some (None, c\<lparr>partitions := [0 \<mapsto> y], loads := [Name y \<mapsto> [0]]\<rparr>)"
proof -
  have ml: "MaximumLoad c = Fin 1"
    by (simp add: MaximumLoad_def c round64_eval ceiling_half)
  have fl: "fresh_loads c = [Name y \<mapsto> []]"
    by (auto simp add: fresh_loads_def c)
  have si0: "start_idx c 0 = 0"
    by (simp add: start_idx_def c len_hasher_part Search_def Search_loop.simps Let_def)
  have dw0: "distributeWithLoad c 0 0 Map.empty [Name y \<mapsto> []] =
      Some (Inr ([0 \<mapsto> y], [Name y \<mapsto> [0]]))"
    by (simp add: distributeWithLoad_def distributeWithLoad_loop.simps ml c load_list_def fadd_one_exact)
  have l1: "distributePartitions_loop c 1 ps ls = Some (Inr (ps, ls))" for ps ls
    by (subst distributePartitions_loop.simps) (simp add: c)
  have l0: "distributePartitions_loop c 0 Map.empty [Name y \<mapsto> []] =
      Some (Inr ([0 \<mapsto> y], [Name y \<mapsto> [0]]))"
    by (subst distributePartitions_loop.simps) (simp add: c si0 dw0 l1)
  show ?thesis
    by (simp add: distributePartitions_def fl l0)
qed

lemma dist_len_2:
  fixes x y :: Bin
  assumes c: "hasher c = len_hasher" "partition c = 1" "loadBalancingParameter c = Fin 1"
    "bins c = [Name x \<mapsto> x, Name y \<mapsto> y]" "ring c = [2 \<mapsto> y]" "sortedSet c = [2, 2, 2, 2]"
    and ne: "Name x \<noteq> Name y"
  shows "distributePartitions c =
           Some (None, c\<lparr>partitions := [0 \<mapsto> y], loads := [Name x \<mapsto> [], Name y \<mapsto> [0]]\<rparr>)"
proof -
  have "\<lceil>1 / 2 :: real\<rceil> = 1"
    by (simp add: ceiling_eq_iff)
  then have ml: "MaximumLoad c = Fin 1"
    using ne by (simp add: MaximumLoad_def c round64_eval ceiling_half)
  have fl: "fresh_loads c = [Name x \<mapsto> [], Name y \<mapsto> []]"
    using ne by (auto simp add: fresh_loads_def c ran_def fun_eq_iff)
  have si0: "start_idx c 0 = 0"
    by (simp add: start_idx_def c len_hasher_part Search_def Search_loop.simps Let_def)
  have dw0: "distributeWithLoad c 0 0 Map.empty [Name x \<mapsto> [], Name y \<mapsto> []] =
      Some (Inr ([0 \<mapsto> y], [Name x \<mapsto> [], Name y \<mapsto> [0]]))"
    by (simp add: distributeWithLoad_def distributeWithLoad_loop.simps ml c load_list_def fadd_one_exact)
  have l1: "distributePartitions_loop c 1 ps ls = Some (Inr (ps, ls))" for ps ls
    by (subst distributePartitions_loop.simps) (simp add: c)
  have l0: "distributePartitions_loop c 0 Map.empty [Name x \<mapsto> [], Name y \<mapsto> []] =
      Some (Inr ([0 \<mapsto> y], [Name x \<mapsto> [], Name y \<mapsto> [0]]))"
    by (subst distributePartitions_loop.simps) (simp add: c si0 dw0 l1)
  show ?thesis
    by (simp add: distributePartitions_def fl l0)
qed

lemma Add_cL0_a: "Add cL0 (NewBin ''a'') = Some (None, cLa)"
proof -
  have 0: "bins cL0 (Name (NewBin ''a'')) = None" by (simp add: cL0_def)
  have 1: "add cL0 (NewBin ''a'') = cLa\<lparr>partitions := Map.empty, loads := Map.empty\<rparr>"
    by (simp add: add_eq ring_hashes_len cL0_def cLa_def NewBin_def)
  have 2: "distributePartitions (cLa\<lparr>partitions := Map.empty, loads := Map.empty\<rparr>) = Some (None, cLa)"
    by (subst dist_len_1 [where y = "NewBin ''a''"]) (simp_all add: cLa_def NewBin_def)
  have 3: "relocate cLa = Some cLa" by (simp add: relocate_def cLa_def)
  show ?thesis
    by (simp add: Add_def 0 1 2 3)
qed

lemma Add_cL0_b: "Add cL0 (NewBin ''b'') = Some (None, cLb)"
proof -
  have 0: "bins cL0 (Name (NewBin ''b'')) = None" by (simp add: cL0_def)
  have 1: "add cL0 (NewBin ''b'') = cLb\<lparr>partitions := Map.empty, loads := Map.empty\<rparr>"
    by (simp add: add_eq ring_hashes_len cL0_def cLb_def NewBin_def)
  have 2: "distributePartitions (cLb\<lparr>partitions := Map.empty, loads := Map.empty\<rparr>) = Some (None, cLb)"
    by (subst dist_len_1 [where y = "NewBin ''b''"]) (simp_all add: cLb_def NewBin_def)
  have 3: "relocate cLb = Some cLb" by (simp add: relocate_def cLb_def)
  show ?thesis
    by (simp add: Add_def 0 1 2 3)
qed

lemma Add_cLa_b: "Add cLa (NewBin ''b'') = Some (None, cLab)"
proof -
  have 0: "bins cLa (Name (NewBin ''b'')) = None" by (simp add: cLa_def NewBin_def)
  have 1: "add cLa (NewBin ''b'') = cLab\<lparr>partitions := partitions cLa, loads := loads cLa\<rparr>"
    by (simp add: add_eq ring_hashes_len cLa_def cLab_def NewBin_def)
  have 2: "distributePartitions (cLab\<lparr>partitions := partitions cLa, loads := loads cLa\<rparr>) = Some (None, cLab)"
    by (subst dist_len_2 [where x = "NewBin ''a''" and y = "NewBin ''b''"])
       (simp_all add: cLab_def NewBin_def)
  have 3: "relocate cLab = Some cLab" by (simp add: relocate_def cLab_def)
  show ?thesis
    by (simp add: Add_def 0 1 2 3)
qed

lemma Add_cLb_a: "Add cLb (NewBin ''a'') = Some (None, cLba)"
proof -
  have 0: "bins cLb (Name (NewBin ''a'')) = None" by (simp add: cLb_def NewBin_def)
  have 1: "add cLb (NewBin ''a'') = cLba\<lparr>partitions := partitions cLb, loads := loads cLb\<rparr>"
    by (simp add: add_eq ring_hashes_len cLb_def cLba_def NewBin_def)
  have 2: "distributePartitions (cLba\<lparr>partitions := partitions cLb, loads := loads cLb\<rparr>) = Some (None, cLba)"
    by (subst dist_len_2 [where x = "NewBin ''b''" and y = "NewBin ''a''"])
       (simp_all add: cLba_def NewBin_def)
  have 3: "relocate cLba = Some cLba" by (simp add: relocate_def cLba_def)
  show ?thesis
    by (simp add: Add_def 0 1 2 3)
qed

lemma New_cfgH: "New cfgH None = Some (Inr cH0)"
  by (simp add: New_def cfgH_def cH0_def)

lemma New_cfgL: "New cfgL None = Some (Inr cL0)"
  by (simp add: New_def cfgL_def cL0_def)

subsection \<open>The structure \<open>New(cfgR, binsR)\<close> returns\<close>

lemma of_char_char_of_0: "(of_char (char_of (0::nat)) :: uint64) = 0"
  by code_simp

lemma last_hasher_part: "p < 2 ^ 56 \<Longrightarrow> last_hasher (PutUint64 p) = 0"
proof -
  assume "p < 2 ^ 56"
  then have d: "drop_bit 56 p = 0"
    by (simp add: drop_bit_eq_div div_word_less)
  have e: "(8::nat) = Suc 7" by simp
  have "[0..<8::nat] = [0..<7] @ [7]"
    unfolding e by (rule upt_Suc_append) simp
  then have "PutUint64 p =
      map (\<lambda>k. char_of (unat (drop_bit (8 * k) p))) [0..<7] @ [char_of (unat (drop_bit 56 p))]"
    by (simp add: PutUint64_def)
  then show ?thesis
    by (simp add: last_hasher_def d of_char_char_of_0)
qed

lemma adds_binsR:
  "fold (\<lambda>bin c. add c bin) binsR
     \<lparr>hasher = last_hasher, partition = 58, replicationFactor = 1,
      loadBalancingParameter = Fin (7 / 2),
      loads = Map.empty, bins = Map.empty, balls = Map.empty,
      partitions = Map.empty, ring = Map.empty, sortedSet = []\<rparr> = cR1"
  by (simp add: binsR_def cR1_def add_eq ring_hashes_def NewBin_def decimal_0 last_hasher_def)

lemma cR1_fields:
  "hasher cR1 = last_hasher" "partition cR1 = 58" "loadBalancingParameter cR1 = Fin (7 / 2)"
  "sortedSet cR1 = [97, 98, 99, 100, 101, 102, 103]"
  "ring cR1 97 = Some (NewBin ''a'')" "ring cR1 98 = Some (NewBin ''b'')"
  by (simp_all add: cR1_def)

lemma MaximumLoad_cR1: "MaximumLoad cR1 = Fin 30"
  by (simp add: MaximumLoad_def cR1_def round64_eval)

lemma start_idx_cR1: "p < 2 ^ 56 \<Longrightarrow> start_idx cR1 p = 0"
  by (simp add: start_idx_def cR1_fields last_hasher_part Search_def Search_loop.simps Let_def)

text \<open>The walk from position 0: the bin \<open>a\<close> while it has room, then the bin \<open>b\<close>.\<close>

lemma walk_cR1_a:
  assumes "length (load_list ls ''a'') < 30"
  shows "distributeWithLoad cR1 p 0 ps ls =
           Some (Inr (ps(p \<mapsto> NewBin ''a''), ls(''a'' \<mapsto> load_list ls ''a'' @ [p])))"
proof -
  from assms have "length (load_list ls ''a'') < 2 ^ 53" by simp
  from fadd_one_exact [OF this] assms show ?thesis
    by (simp add: distributeWithLoad_def distributeWithLoad_loop.simps [of cR1 p 0 0]
        cR1_fields MaximumLoad_cR1 NewBin_def)
qed

lemma walk_cR1_b:
  assumes "length (load_list ls ''a'') = 30" and "length (load_list ls ''b'') < 30"
  shows "distributeWithLoad cR1 p 0 ps ls =
           Some (Inr (ps(p \<mapsto> NewBin ''b''), ls(''b'' \<mapsto> load_list ls ''b'' @ [p])))"
proof -
  have a: "fadd (float64_of_nat (length (load_list ls ''a''))) (Fin 1) = Fin 31"
    using fadd_one_exact [of "length (load_list ls ''a'')"] assms(1) by simp
  from assms have "length (load_list ls ''b'') < 2 ^ 53" by simp
  from fadd_one_exact [OF this] a assms show ?thesis
    by (simp add: distributeWithLoad_def distributeWithLoad_loop.simps [of cR1 p 0 0]
        distributeWithLoad_loop.simps [of cR1 p "Suc 0" "Suc 0"]
        cR1_fields MaximumLoad_cR1 NewBin_def)
qed


lemma fresh_loads_cR1:
  "fresh_loads cR1 = [''a'' \<mapsto> [], ''b'' \<mapsto> [], ''c'' \<mapsto> [], ''d'' \<mapsto> [], ''e'' \<mapsto> [], ''f'' \<mapsto> [], ''g'' \<mapsto> []]"
  by (auto simp add: fresh_loads_def cR1_def NewBin_def)

lemma loop_cR1:
  "distributePartitions_loop cR1 0 Map.empty
     [''a'' \<mapsto> [], ''b'' \<mapsto> [], ''c'' \<mapsto> [], ''d'' \<mapsto> [], ''e'' \<mapsto> [], ''f'' \<mapsto> [], ''g'' \<mapsto> []] = Some (Inr (partitions cR, loads cR))"
  apply (simp add: distributePartitions_loop.simps cR1_fields start_idx_cR1 walk_cR1_a walk_cR1_b
      load_list_upd)
  apply (simp add: load_list_def cR_def first30_def last28_def upt_rec)
  apply (auto simp: fun_eq_iff)
  done

lemma pass_cR1: "distributePartitions cR1 = Some (None, cR)"
proof -
  have "cR1\<lparr>partitions := partitions cR, loads := loads cR\<rparr> = cR"
    by (simp add: cR1_def cR_def)
  then show ?thesis
    by (simp add: distributePartitions_def fresh_loads_cR1 loop_cR1)
qed

lemma New_cfgR: "New cfgR (Some binsR) = Some (Inr cR)"
  using adds_binsR by (simp add: New_def cfgR_def pass_cR1)

lemma loads_cR_a: "loads cR ''a'' = Some first30"
  by (simp add: cR_def)

lemma card_bins_cR1: "card (dom (bins cR1)) = 7"
  by (simp add: cR1_def)
section \<open>The theorems at concrete inputs\<close>

text \<open>C2 on the pass that \<open>Add(b)\<close> runs on \<open>cFa\<close>: partition 0 goes to \<open>b\<close>, partition 1 to \<open>a\<close>.\<close>

theorem total_coverage_witness:
  "distributePartitions (add cFa (NewBin ''b'')) = Some (None, cFab) \<and>
   dom (partitions cFab) = {p. p < partition (add cFa (NewBin ''b''))} \<and>
   loads cFab ''a'' = Some [1] \<and> loads cFab ''b'' = Some [0] \<and> ''a'' \<noteq> ''b'' \<and>
   distinct [1 :: PartitionID] \<and> set [1 :: PartitionID] \<inter> set [0] = {} \<and>
   (\<Union>l \<in> ran (loads cFab). set l) = {p. p < partition (add cFa (NewBin ''b''))}"
proof -
  note t = total_coverage [OF distributePartitions_cFab]
  have a: "loads cFab ''a'' = Some [1]" and b: "loads cFab ''b'' = Some [0]"
    by (simp_all add: cFab_def)
  have ne: "''a'' \<noteq> ''b''" by simp
  have "distinct [1 :: PartitionID]"
    using t [THEN conjunct2, THEN conjunct1, rule_format, OF a] .
  moreover have "set [1 :: PartitionID] \<inter> set [0] = {}"
    using t [THEN conjunct2, THEN conjunct2, THEN conjunct1, rule_format, OF a b ne] .
  moreover note t [THEN conjunct1] t [THEN conjunct2, THEN conjunct2, THEN conjunct2]
  ultimately show ?thesis
    using a b ne distributePartitions_cFab by (intro conjI)
qed

text \<open>
  Claim C5 on the code. \<open>Remove\<close> builds its labels as \<open>Sprintf("%s%d", name, i)\<close>, \<open>add\<close>
  as \<open>Sprintf("%d%s", i, name)\<close>. After \<open>Add(a)\<close> and \<open>Remove(a)\<close>, with the FNV-1 hasher and
  two replicas, the bin registry is empty and the two ring positions that \<open>add\<close> wrote for
  \<open>a\<close> are still in the ring and in the sorted positions.
\<close>

theorem Remove_misses_ring_positions:
  "New cfgF None = Some (Inr cF0) \<and>
   Add cF0 (NewBin ''a'') = Some (None, cFa) \<and>
   Remove cFa (NewBin ''a'') = Some (None, cFr) \<and>
   bins cFr = Map.empty \<and>
   ring cFr 590701660006484860 = Some (NewBin ''a'') \<and>
   ring cFr 590700560494856459 = Some (NewBin ''a'') \<and>
   sortedSet cFr = [590700560494856459, 590701660006484860] \<and>
   ring_hashes cF0 (NewBin ''a'') = [590701660006484860, 590700560494856459]"
  by (simp add: New_cfgF Add_cF0_a Remove_cFa ring_hashes_cF0_a) (simp add: cFr_def)

text \<open>
  Claim C7 as stated fails: \<open>Remove\<close> of the last bin \<open>a\<close> of \<open>cFa\<close> returns nil and empties the
  partition table, and the load table still holds the list of \<open>a\<close>.
\<close>

theorem Remove_last_bin_keeps_loads:
  "New cfgF None = Some (Inr cF0) \<and>
   Add cF0 (NewBin ''a'') = Some (None, cFa) \<and>
   dom (bins cFa) = {Name (NewBin ''a'')} \<and>
   Remove cFa (NewBin ''a'') = Some (None, cFr) \<and>
   partitions cFr = Map.empty \<and>
   loads cFr ''a'' = Some [0, 1] \<and>
   loads cFr \<noteq> Map.empty"
proof -
  have "loads cFr ''a'' = Some [0, 1]" by (simp add: cFr_def)
  moreover from this have "loads cFr \<noteq> Map.empty" by (auto simp: fun_eq_iff)
  ultimately show ?thesis
    by (simp add: New_cfgF Add_cF0_a Remove_cFa) (simp add: cFa_def cFr_def NewBin_def)
qed

text \<open>C7, as the code has it, on \<open>cFa\<close>.\<close>

theorem Remove_last_bin_witness:
  "dom (bins cFa) = {Name (NewBin ''a'')} \<and>
   (\<exists>c'. Remove cFa (NewBin ''a'') = Some (None, c') \<and> bins c' = Map.empty \<and>
      partitions c' = Map.empty \<and> loads c' = loads cFa)"
proof -
  have h: "dom (bins cFa) = {Name (NewBin ''a'')}"
    by (simp add: cFa_def NewBin_def)
  from Remove_last_bin [OF h] h show ?thesis by simp
qed

text \<open>
  Claim C6 on the code. \<open>New\<close> does not look at the configuration: with the configurations
  of \<open>TestNew\<close> "0 partition", "negative replication factor" and "0 load balancing parameter"
  it returns a structure and no error, where the test expects an error.
\<close>

theorem New_accepts_invalid_config:
  "New cfg6 None =
     Some (Inr \<lparr>hasher = fnv64, partition = 0, replicationFactor = 10,
                loadBalancingParameter = Fin (5404319552844595 / 4503599627370496),
                loads = Map.empty, bins = Map.empty, balls = Map.empty,
                partitions = Map.empty, ring = Map.empty, sortedSet = []\<rparr>) \<and>
   New (cfg6\<lparr>Partition := 20, ReplicationFactor := - 1\<rparr>) None =
     Some (Inr \<lparr>hasher = fnv64, partition = 20, replicationFactor = - 1,
                loadBalancingParameter = Fin (5404319552844595 / 4503599627370496),
                loads = Map.empty, bins = Map.empty, balls = Map.empty,
                partitions = Map.empty, ring = Map.empty, sortedSet = []\<rparr>) \<and>
   New (cfg6\<lparr>Partition := 20, LoadBalancingParameter := Fin 0\<rparr>) None =
     Some (Inr \<lparr>hasher = fnv64, partition = 20, replicationFactor = 10,
                loadBalancingParameter = Fin 0,
                loads = Map.empty, bins = Map.empty, balls = Map.empty,
                partitions = Map.empty, ring = Map.empty, sortedSet = []\<rparr>)"
  by (simp add: New_def cfg6_def)

text \<open>C10 on the configuration \<open>cfgF\<close>.\<close>

theorem New_nil_and_empty_witness:
  "New cfgF None = Some (Inr cF0) \<and> 0 < Partition cfgF \<and> Partition cfgF < 2 ^ 63 \<and>
   New cfgF (Some []) = Some (Inl ErrInsufficientPartitionCapacity)"
proof -
  have h: "0 < Partition cfgF \<and> Partition cfgF < 2 ^ 63" by (simp add: cfgF_def)
  from New_nil_and_empty [of cfgF] h show ?thesis
    by (simp add: cfgF_def cF0_def)
qed

text \<open>C8, as the code has it, on the bins \<open>a\<close> and \<open>b\<close> added in the two orders.\<close>

theorem Add_order_independent_witness:
  "Add_all cF0 [NewBin ''a'', NewBin ''b''] = Some cFab \<and>
   Add_all cF0 [NewBin ''b'', NewBin ''a''] = Some cFba \<and>
   set [NewBin ''a'', NewBin ''b''] = set [NewBin ''b'', NewBin ''a''] \<and>
   set (ring_hashes cF0 (NewBin ''a'')) \<inter> set (ring_hashes cF0 (NewBin ''b'')) = {} \<and>
   partitions cFab = partitions cFba \<and> loads cFab = loads cFba"
proof -
  have h1: "Add_all cF0 [NewBin ''a'', NewBin ''b''] = Some cFab"
    by (simp add: Add_cF0_a Add_cFa_b)
  have h2: "Add_all cF0 [NewBin ''b'', NewBin ''a''] = Some cFba"
    by (simp add: Add_cF0_b Add_cFb_a)
  have h3: "set [NewBin ''a'', NewBin ''b''] = set [NewBin ''b'', NewBin ''a'']"
    by auto
  have h4: "set (ring_hashes cF0 (NewBin ''a'')) \<inter> set (ring_hashes cF0 (NewBin ''b'')) = {}"
    by (simp add: ring_hashes_cF0_a ring_hashes_cF0_b)
  then have h5: "\<forall>b \<in> set [NewBin ''a'', NewBin ''b'']. \<forall>b' \<in> set [NewBin ''a'', NewBin ''b''].
      b \<noteq> b' \<longrightarrow> set (ring_hashes cF0 b) \<inter> set (ring_hashes cF0 b') = {}"
    by (auto simp: Int_commute)
  from Add_order_independent [OF h1 h2 h3 h5] h1 h2 h3 h4 show ?thesis
    by simp
qed

text \<open>C9 on \<open>Add(a)\<close> to a structure with one ball in its registry.\<close>

theorem Add_keeps_balls_witness:
  "Add (cF0\<lparr>balls := [1 \<mapsto> ''data0'']\<rparr>) (NewBin ''a'') =
     Some (None, cFa\<lparr>balls := [1 \<mapsto> ''data0'']\<rparr>) \<and>
   balls (cFa\<lparr>balls := [1 \<mapsto> ''data0'']\<rparr>) = balls (cF0\<lparr>balls := [1 \<mapsto> ''data0'']\<rparr>)"
  using Add_keeps_balls [OF Add_with_balls [of "[1 \<mapsto> ''data0'']"]] Add_with_balls [of "[1 \<mapsto> ''data0'']"]
  by simp

text \<open>
  Claim C4 as stated fails: with load-balancing parameter 1/2 one bin cannot take both
  partitions, \<open>Add(a)\<close> returns \<open>ErrInsufficientPartitionCapacity\<close>, and the bin \<open>a\<close> is in the
  bin registry, the ring and the sorted positions all the same.
\<close>

theorem Add_error_changes_ring:
  "New cfgH None = Some (Inr cH0) \<and>
   Add cH0 (NewBin ''a'') = Some (Some ErrInsufficientPartitionCapacity, cH1) \<and>
   bins cH0 ''a'' = None \<and> bins cH1 ''a'' = Some (NewBin ''a'') \<and>
   ring cH0 590701660006484860 = None \<and>
   ring cH1 590701660006484860 = Some (NewBin ''a'') \<and>
   sortedSet cH0 = [] \<and> sortedSet cH1 = [590700560494856459, 590701660006484860] \<and>
   cH1 \<noteq> cH0"
proof -
  have "sortedSet cH0 = []" "sortedSet cH1 = [590700560494856459, 590701660006484860]"
    by (simp_all add: cH0_def cH1_def)
  moreover from this have "cH1 \<noteq> cH0" by auto
  ultimately show ?thesis
    by (simp add: New_cfgH Add_cH0_a) (simp add: cH0_def cH1_def)
qed

text \<open>C4, as the code has it, on the same call.\<close>

theorem Add_error_state_witness:
  "Add cH0 (NewBin ''a'') = Some (Some ErrInsufficientPartitionCapacity, cH1) \<and>
   cH1 = add cH0 (NewBin ''a'') \<and>
   partitions cH1 = partitions cH0 \<and> loads cH1 = loads cH0 \<and> balls cH1 = balls cH0"
  using Add_error_state [OF Add_cH0_a] Add_cH0_a by simp

text \<open>
  Claim C3 on the code. The walk counts before it looks: it gives up when \<open>count\<close> reaches
  the number of ring positions, so it looks at one position fewer than the ring has. On the
  ring of one position the single bin \<open>a\<close> has load 0, \<open>MaximumLoad\<close> is 1, the test
  \<open>load + 1 <= maxLoad\<close> of the walk holds for it, and the walk returns
  \<open>ErrInsufficientPartitionCapacity\<close> without looking at it; so does \<open>New\<close>.
\<close>

theorem walk_stops_one_position_short:
  "New cfg3 None = Some (Inr c30) \<and>
   New cfg3 (Some [NewBin ''a'']) = Some (Inl ErrInsufficientPartitionCapacity) \<and>
   add c30 (NewBin ''a'') = c31 \<and>
   distributeWithLoad c31 0 (start_idx c31 0) Map.empty (fresh_loads c31) =
     Some (Inl ErrInsufficientPartitionCapacity) \<and>
   sortedSet c31 = [590701660006484860] \<and>
   ring c31 590701660006484860 = Some (NewBin ''a'') \<and>
   load_list (fresh_loads c31) ''a'' = [] \<and>
   MaximumLoad c31 = Fin 1 \<and>
   fle (fadd (float64_of_nat (length (load_list (fresh_loads c31) ''a''))) (Fin 1)) (MaximumLoad c31)"
proof -
  have n: "New cfg3 (Some [NewBin ''a'']) =
      (case distributePartitions c31 of None \<Rightarrow> None
       | Some (Some err, _) \<Rightarrow> Some (Inl err) | Some (None, c2) \<Rightarrow> Some (Inr c2))"
    using add_c30_a by (simp add: New_def cfg3_def c30_def)
  have s: "sortedSet c31 = [590701660006484860]" and p: "partition c31 = 1"
    by (simp_all add: c31_def)
  have w: "distributeWithLoad c31 0 i ps ls = Some (Inl ErrInsufficientPartitionCapacity)" for i ps ls
    by (rule distributeWithLoad_short_ring) (simp add: s)
  have "distributePartitions_loop c31 0 Map.empty (fresh_loads c31) =
      Some (Inl ErrInsufficientPartitionCapacity)"
    by (subst distributePartitions_loop.simps) (simp add: p w)
  then have d: "distributePartitions c31 = Some (Some ErrInsufficientPartitionCapacity, c31)"
    by (simp add: distributePartitions_def)
  have ml: "MaximumLoad c31 = Fin 1"
    by (simp add: MaximumLoad_def c31_def round64_eval)
  have fl: "fresh_loads c31 = [''a'' \<mapsto> []]"
    by (auto simp add: fresh_loads_def c31_def NewBin_def)
  have n0: "New cfg3 None = Some (Inr c30)"
    by (simp add: New_def cfg3_def c30_def)
  show ?thesis
    by (simp add: n0 n d w add_c30_a ml fl load_list_def fadd_one_exact) (simp add: c31_def)
qed

text \<open>
  Claim C8 as stated fails: under a hasher that sends all four labels of \<open>a\<close> and \<open>b\<close> to
  one ring position, the ring keeps the bin added last, and the two orders of insertion end
  with different partition tables and load tables.
\<close>

theorem Add_order_matters_on_collision:
  "New cfgL None = Some (Inr cL0) \<and>
   Add_all cL0 [NewBin ''a'', NewBin ''b''] = Some cLab \<and>
   Add_all cL0 [NewBin ''b'', NewBin ''a''] = Some cLba \<and>
   partitions cLab 0 = Some (NewBin ''b'') \<and>
   partitions cLba 0 = Some (NewBin ''a'') \<and>
   loads cLab ''a'' = Some [] \<and> loads cLba ''a'' = Some [0] \<and>
   partitions cLab \<noteq> partitions cLba \<and> loads cLab \<noteq> loads cLba"
proof -
  have p: "partitions cLab 0 = Some (NewBin ''b'')" "partitions cLba 0 = Some (NewBin ''a'')"
    and l: "loads cLab ''a'' = Some []" "loads cLba ''a'' = Some [0]"
    by (simp_all add: cLab_def cLba_def)
  from p have "partitions cLab 0 \<noteq> partitions cLba 0" by (simp add: NewBin_def)
  then have "partitions cLab \<noteq> partitions cLba" by auto
  moreover from l have "loads cLab ''a'' \<noteq> loads cLba ''a''" by simp
  then have "loads cLab \<noteq> loads cLba" by auto
  ultimately show ?thesis
    using p l by (simp add: New_cfgL Add_cL0_a Add_cL0_b Add_cLa_b Add_cLb_a)
qed

text \<open>
  C1 read with the exact ceiling fails on \<open>New(cfgR, binsR)\<close>: the exact value of
  \<open>58 / 7 * 3.5\<close> is 29, but the quotient \<open>float64(58) / float64(7)\<close> is rounded up, the product
  is rounded to the binary64 value just above 29, and \<open>MaximumLoad()\<close> is 30. The bin \<open>a\<close> ends
  with 30 partitions.
\<close>

theorem load_exceeds_exact_ceiling:
  "New cfgR (Some binsR) = Some (Inr cR) \<and>
   card (dom (bins cR)) = 7 \<and> unat (partition cR) = 58 \<and>
   loadBalancingParameter cR = Fin (7 / 2) \<and>
   loads cR ''a'' = Some first30 \<and> int (length first30) = 30 \<and>
   \<lceil>real (unat (partition cR)) / real (card (dom (bins cR))) * (7 / 2)\<rceil> = 29 \<and>
   \<not> int (length first30)
       \<le> \<lceil>real (unat (partition cR)) / real (card (dom (bins cR))) * (7 / 2)\<rceil> \<and>
   MaximumLoad cR = Fin 30"
proof -
  have c: "card (dom (bins cR)) = 7" "unat (partition cR) = 58"
    "loadBalancingParameter cR = Fin (7 / 2)"
    by (simp_all add: cR_def)
  have l: "int (length first30) = 30" by (simp add: first30_def)
  have e: "\<lceil>real 58 / real 7 * (7 / 2)\<rceil> = (29::int)" by simp
  have m: "MaximumLoad cR = Fin 30"
    by (simp add: MaximumLoad_def c round64_eval)
  from e show ?thesis
    by (simp add: New_cfgR loads_cR_a c l m)
qed

text \<open>
  C1, as the code has it, on the same pass: the 30 partitions of the bin \<open>a\<close> are within the
  binary64 value of \<open>MaximumLoad()\<close> for 58 partitions, 7 bins and parameter 3.5.
\<close>

theorem load_bound_witness:
  "distributePartitions cR1 = Some (None, cR) \<and>
   0 < card (dom (bins cR1)) \<and>
   loadBalancingParameter cR1 = Fin (7 / 2) \<and>
   unat (partition cR1) \<le> 2 ^ 53 \<and>
   loads cR ''a'' = Some first30 \<and>
   fle (Fin (real (length first30)))
     (fceil (fmul (fdiv (float64_of_nat (unat (partition cR1)))
                        (float64_of_nat (card (dom (bins cR1)))))
                  (Fin (7 / 2))))"
proof -
  have h2: "0 < card (dom (bins cR1))" by (simp add: card_bins_cR1)
  have h3: "loadBalancingParameter cR1 = Fin (7 / 2)" by (simp add: cR1_fields)
  have h4: "unat (partition cR1) \<le> 2 ^ 53" by (simp add: cR1_fields)
  from load_bound [OF pass_cR1 h2 h3 h4 loads_cR_a] pass_cR1 h2 h3 h4 loads_cR_a
  show ?thesis by (intro conjI)
qed

end
